theory Spec2Isabelle
  imports Main "HOL-Library.Finite_Map" "HOL-Library.Word"
begin

section \<open>Identifiers and naming (api.go)\<close>

text \<open>
  Go's \<^verbatim>\<open>int\<close> is taken to be 64 bits wide.  Pull-request numbers, pipeline counters
  and weights are modelled as \<^typ>\<open>int\<close>; the only place of the program where the
  width of \<^verbatim>\<open>int\<close> decides a result is \<^verbatim>\<open>strconv.Atoi\<close>, whose range check is
  written out below.  A Go map is a finite map; the zero value returned by Go for a
  missing key is written out at each lookup that relies on it.
\<close>

type_synonym CommitID = string
type_synonym PullRequestNumber = int

record BranchKey =
  PipelineCounter :: int
  PullRequestNumber :: PullRequestNumber

record BranchValue =
  CommitID :: CommitID
  Parents :: "CommitID list"
  isValid :: bool
  IsCheckDone :: bool
  IsCheckPass :: bool

definition MergeCandidateBranchPrefix :: string where
  "MergeCandidateBranchPrefix = ''merge-candidate''"

definition zeroBranchKey :: BranchKey where
  "zeroBranchKey = \<lparr>PipelineCounter = 0, PullRequestNumber = 0\<rparr>"

definition zeroBranchValue :: BranchValue where
  "zeroBranchValue =
     \<lparr>CommitID = [], Parents = [], isValid = False, IsCheckDone = False, IsCheckPass = False\<rparr>"

subsection \<open>Decimal formatting and parsing of the Go library\<close>

definition maxInt :: int where
  "maxInt = 2 ^ 63 - 1"

definition minInt :: int where
  "minInt = - (2 ^ 63)"

definition digit_char :: "nat \<Rightarrow> char" where
  "digit_char d = char_of (48 + d)"

definition is_digit :: "char \<Rightarrow> bool" where
  "is_digit c = (48 \<le> (of_char c :: nat) \<and> (of_char c :: nat) \<le> 57)"

definition digit_val :: "char \<Rightarrow> nat" where
  "digit_val c = of_char c - 48"

fun fmt_nat :: "nat \<Rightarrow> string" where
  "fmt_nat n = (if n < 10 then [digit_char n] else fmt_nat (n div 10) @ [digit_char (n mod 10)])"

declare fmt_nat.simps [simp del]

text \<open>The verb \<^verbatim>\<open>%d\<close> of \<^verbatim>\<open>fmt.Sprintf\<close> applied to an \<^verbatim>\<open>int\<close>.\<close>

definition fmt_d :: "int \<Rightarrow> string" where
  "fmt_d i = (if i < 0 then CHR ''-'' # fmt_nat (nat (- i)) else fmt_nat (nat i))"

definition digits_val :: "string \<Rightarrow> nat" where
  "digits_val ds = foldl (\<lambda>a c. a * 10 + digit_val c) 0 ds"

datatype NumError = ErrSyntax | ErrRange

text \<open>
  \<^verbatim>\<open>strconv.Atoi\<close>: an optional sign, then at least one decimal digit and nothing
  else; a value outside the range of \<^verbatim>\<open>int\<close> is a range error, reported together
  with the nearest bound.  A syntax error is reported together with 0.
\<close>

definition Atoi :: "string \<Rightarrow> int \<times> NumError option" where
  "Atoi s =
     (let neg = (s \<noteq> [] \<and> hd s = CHR ''-'');
          ds = (if s \<noteq> [] \<and> (hd s = CHR ''-'' \<or> hd s = CHR ''+'') then tl s else s)
      in if ds = [] \<or> \<not> list_all is_digit ds then (0, Some ErrSyntax)
         else if neg then
           (if - int (digits_val ds) < minInt then (minInt, Some ErrRange)
            else (- int (digits_val ds), None))
         else
           (if maxInt < int (digits_val ds) then (maxInt, Some ErrRange)
            else (int (digits_val ds), None)))"

text \<open>\<^verbatim>\<open>strings.Split\<close> on a separator of one byte, and \<^verbatim>\<open>strings.HasPrefix\<close>.\<close>

fun Split :: "string \<Rightarrow> char \<Rightarrow> string list" where
  "Split [] sep = [[]]"
| "Split (c # cs) sep =
     (if c = sep then [] # Split cs sep
      else (case Split cs sep of [] \<Rightarrow> [[c]] | p # ps \<Rightarrow> (c # p) # ps))"

definition HasPrefix :: "string \<Rightarrow> string \<Rightarrow> bool" where
  "HasPrefix s p = (take (length p) s = p)"

subsection \<open>BranchName and ParseBranchKey\<close>

definition BranchName :: "BranchKey \<Rightarrow> string" where
  "BranchName bk =
     MergeCandidateBranchPrefix @ ''-'' @ fmt_d (PullRequestNumber bk) @ ''-''
       @ fmt_d (PipelineCounter bk)"

definition ParseBranchKey :: "string \<Rightarrow> BranchKey \<times> bool" where
  "ParseBranchKey branchName =
     (let bk = zeroBranchKey in
      if \<not> HasPrefix branchName (MergeCandidateBranchPrefix @ ''-'') then (bk, False)
      else
        let suffix = drop (length (MergeCandidateBranchPrefix @ ''-'')) branchName;
            parts = Split suffix CHR ''-''
        in if length parts \<noteq> 2 then (bk, False)
           else
             let (num, err) = Atoi (parts ! 0);
                 bk = bk\<lparr>PullRequestNumber := num\<rparr>
             in if err \<noteq> None \<or> PullRequestNumber bk \<le> 0 then (bk, False)
                else
                  let (cnt, err) = Atoi (parts ! 1);
                      bk = bk\<lparr>PipelineCounter := cnt\<rparr>
                  in if err \<noteq> None \<or> PipelineCounter bk \<le> 0 then (bk, False)
                     else (bk, True))"

section \<open>The state machine (state.go)\<close>

record PipelineValue =
  Predecessor :: BranchKey
  Weight :: int
  IsNotInPipeline :: bool

record State =
  Base :: CommitID
  Branches :: "(BranchKey, BranchValue) fmap"
  MergeablePullRequests :: "(PullRequestNumber, CommitID) fmap"
  CancelledPullRequests :: "PullRequestNumber set"

type_synonym PipelineTree = "(BranchKey, PipelineValue) fmap"

definition zeroPipelineValue :: PipelineValue where
  "zeroPipelineValue = \<lparr>Predecessor = zeroBranchKey, Weight = 0, IsNotInPipeline = False\<rparr>"

text \<open>Indexing a Go map: the value stored at the key, the zero value when the key is absent.\<close>

definition tree_at :: "PipelineTree \<Rightarrow> BranchKey \<Rightarrow> PipelineValue" where
  "tree_at t k = (case fmlookup t k of Some pv \<Rightarrow> pv | None \<Rightarrow> zeroPipelineValue)"

definition branch_at :: "State \<Rightarrow> BranchKey \<Rightarrow> BranchValue" where
  "branch_at os k = (case fmlookup (Branches os) k of Some bv \<Rightarrow> bv | None \<Rightarrow> zeroBranchValue)"

text \<open>
  Go visits the keys of a map in an unspecified order, which may change from one
  \<^verbatim>\<open>range\<close> statement to the next.  Every \<^verbatim>\<open>range\<close> over a map is therefore
  modelled by a fold over an explicit list of keys, an input of the function; the list
  stands for the order Go happened to choose.  \<open>visits m ks\<close> says that \<open>ks\<close> is such
  an order for the map \<open>m\<close>: every key once.  The functions are defined for every
  list; they are the loops of the program when the list is an order of the map.
\<close>

definition visits :: "('k, 'v) fmap \<Rightarrow> 'k list \<Rightarrow> bool" where
  "visits m ks = (distinct ks \<and> set ks = fmdom' m)"

text \<open>
  The calls to the hosting-service client that change the repository are recorded in
  the order in which they are issued.  A failing call panics and ends the program; the
  model describes the runs in which no call fails.
\<close>

datatype Call =
  CreateBranch BranchKey CommitID
| MergeBranch BranchKey CommitID
| DeleteBranch BranchKey

definition fresh :: State where
  "fresh = \<lparr>Base = [], Branches = fmempty, MergeablePullRequests = fmempty,
            CancelledPullRequests = {}\<rparr>"

definition deepCopy :: "State \<Rightarrow> State" where
  "deepCopy other =
     \<lparr>Base = Base other, Branches = Branches other,
      MergeablePullRequests = MergeablePullRequests other,
      CancelledPullRequests = CancelledPullRequests other\<rparr>"

text \<open>
  FetchMergeCandidateBranchState: \<open>baseHead\<close> is the answer of GetBaseHead, \<open>listed\<close>
  the keys handed to the callback of ListAllMergeCandidateBranches, in that order, and
  \<open>getBranch\<close> the answers of GetBranch.
\<close>

definition FetchMergeCandidateBranchState ::
  "CommitID \<Rightarrow> BranchKey list \<Rightarrow> (BranchKey \<Rightarrow> BranchValue) \<Rightarrow> State" where
  "FetchMergeCandidateBranchState baseHead listed getBranch =
     fold (\<lambda>bk ns. ns\<lparr>Branches := fmupd bk (getBranch bk) (Branches ns)\<rparr>) listed
       (fresh\<lparr>Base := baseHead\<rparr>)"

subsection \<open>BuildPipelineTree\<close>

text \<open>The loop over \<^verbatim>\<open>bv.Parents\<close>: the owner of the first parent found in \<^verbatim>\<open>shas\<close>.\<close>

fun findParent :: "(CommitID, BranchKey) fmap \<Rightarrow> CommitID list \<Rightarrow> BranchKey \<times> bool" where
  "findParent shas [] = (zeroBranchKey, False)"
| "findParent shas (p # ps) =
     (case fmlookup shas p of Some parentKey \<Rightarrow> (parentKey, True)
      | None \<Rightarrow> findParent shas ps)"

text \<open>One iteration of the inner \<^verbatim>\<open>range os.Branches\<close> loop.\<close>

definition treeStep ::
  "State \<Rightarrow> BranchKey \<Rightarrow> PipelineTree \<times> (CommitID, BranchKey) fmap \<times> nat
     \<Rightarrow> PipelineTree \<times> (CommitID, BranchKey) fmap \<times> nat" where
  "treeStep os bk st =
     (case st of (t, shas, numAdded) \<Rightarrow>
        (case fmlookup (Branches os) bk of
           None \<Rightarrow> st
         | Some bv \<Rightarrow>
             if fmlookup t bk \<noteq> None then st
             else
               (case findParent shas (Parents bv) of (parentKey, isInTree) \<Rightarrow>
                  if \<not> isInTree then st
                  else
                    (fmupd bk
                       \<lparr>Predecessor = parentKey,
                        Weight = Weight (tree_at t parentKey) + 1,
                        IsNotInPipeline =
                          (IsNotInPipeline (tree_at t parentKey) \<or> \<not> isValid bv
                           \<or> (IsCheckDone bv \<and> \<not> IsCheckPass bv))\<rparr> t,
                     fmupd (CommitID bv) bk shas,
                     numAdded + 1))))"

definition treePass ::
  "State \<Rightarrow> BranchKey list \<Rightarrow> PipelineTree \<Rightarrow> (CommitID, BranchKey) fmap
     \<Rightarrow> PipelineTree \<times> (CommitID, BranchKey) fmap \<times> nat" where
  "treePass os ks t shas = fold (treeStep os) ks (t, shas, 0)"

text \<open>
  The outer \<^verbatim>\<open>for\<close> loop; \<open>ord i\<close> is the order in which pass number \<open>i\<close> visits
  \<^verbatim>\<open>os.Branches\<close>.
\<close>

function treeLoop ::
  "State \<Rightarrow> (nat \<Rightarrow> BranchKey list) \<Rightarrow> nat \<Rightarrow> PipelineTree \<Rightarrow> (CommitID, BranchKey) fmap
     \<Rightarrow> PipelineTree" where
  "treeLoop os ord i t shas =
     (case treePass os (ord i) t shas of (t', shas', numAdded) \<Rightarrow>
        if numAdded = 0 then t' else treeLoop os ord (Suc i) t' shas')"
  by pat_completeness auto
termination
proof (relation "measure (\<lambda>(os, ord, i, t, shas). card (fmdom' (Branches os) - fmdom' t))")
  show "wf (measure (\<lambda>(os, ord, i, t, shas). card (fmdom' (Branches os) - fmdom' t)))"
    by simp
next
  fix os :: State and ord :: "nat \<Rightarrow> BranchKey list" and i :: nat and t :: PipelineTree
    and shas :: "(CommitID, BranchKey) fmap" and x t' y shas' numAdded
  assume pass: "(t', y) = treePass os (ord i) t shas" and y: "(shas', numAdded) = y"
    and added: "numAdded \<noteq> 0"
  let ?m = "\<lambda>t :: PipelineTree. card (fmdom' (Branches os) - fmdom' t)"
  have fin: "finite (fmdom' (Branches os))"
    by (simp add: fmdom'_alt_def)
  have step: "?m (fst (treeStep os bk st)) + snd (snd (treeStep os bk st))
                \<le> ?m (fst st) + snd (snd st) + 0" for bk st
  proof (cases st)
    case (fields t0 shas0 n0)
    show ?thesis
    proof (cases "fmlookup (Branches os) bk")
      case None
      then show ?thesis by (simp add: treeStep_def fields)
    next
      case (Some bv)
      show ?thesis
      proof (cases "fmlookup t0 bk = None \<and> snd (findParent shas0 (Parents bv))")
        case False
        then show ?thesis
          by (auto simp: treeStep_def fields Some split: prod.splits)
      next
        case True
        have "bk \<in> fmdom' (Branches os) - fmdom' t0"
          using Some True by (auto simp: fmlookup_dom'_iff)
        then have "card (fmdom' (Branches os) - fmdom' t0 - {bk}) < ?m t0"
          using fin by (intro card_Diff1_less) auto
        moreover have "fmdom' (Branches os) - insert bk (fmdom' t0)
                         = fmdom' (Branches os) - fmdom' t0 - {bk}"
          by auto
        ultimately show ?thesis
          using True by (auto simp: treeStep_def fields Some split: prod.splits)
      qed
    qed
  qed
  have pass_le: "?m (fst (fold (treeStep os) ks st)) + snd (snd (fold (treeStep os) ks st))
                   \<le> ?m (fst st) + snd (snd st)" for ks st
  proof (induction ks arbitrary: st)
    case Nil
    show ?case by simp
  next
    case (Cons k ks)
    have "?m (fst (fold (treeStep os) ks (treeStep os k st)))
            + snd (snd (fold (treeStep os) ks (treeStep os k st)))
          \<le> ?m (fst (treeStep os k st)) + snd (snd (treeStep os k st))"
      by (rule Cons.IH)
    also have "\<dots> \<le> ?m (fst st) + snd (snd st)"
      using step [of k st] by simp
    finally show ?case by simp
  qed
  have "?m t' + numAdded \<le> ?m t"
    using pass_le [of "ord i" "(t, shas, 0)"] pass [symmetric] y [symmetric]
    by (simp add: treePass_def)
  with added show "((os, ord, Suc i, t', shas'), (os, ord, i, t, shas))
      \<in> measure (\<lambda>(os, ord, i, t, shas). card (fmdom' (Branches os) - fmdom' t))"
    by simp
qed

declare treeLoop.simps [simp del]

definition BuildPipelineTree :: "State \<Rightarrow> (nat \<Rightarrow> BranchKey list) \<Rightarrow> PipelineTree" where
  "BuildPipelineTree os ord =
     treeLoop os ord 0 fmempty (fmupd (Base os) zeroBranchKey fmempty)"

subsection \<open>ToPrunedOrphanedBranches\<close>

definition ToPrunedOrphanedBranches ::
  "State \<Rightarrow> PipelineTree \<Rightarrow> BranchKey list \<Rightarrow> State \<times> Call list" where
  "ToPrunedOrphanedBranches os t ks =
     fold (\<lambda>bk (ns, calls).
             if fmlookup t bk = None
             then (ns\<lparr>Branches := fmdrop bk (Branches ns)\<rparr>, calls @ [DeleteBranch bk])
             else (ns, calls))
       ks (deepCopy os, [])"

subsection \<open>FindFastForward\<close>

text \<open>One iteration of the \<^verbatim>\<open>range t\<close> loop that chooses the head of the pipeline.\<close>

definition selectHead :: "PipelineTree \<Rightarrow> BranchKey \<Rightarrow> BranchKey \<Rightarrow> BranchKey" where
  "selectHead t bk pipelineHead =
     (case fmlookup t bk of
        None \<Rightarrow> pipelineHead
      | Some pv \<Rightarrow>
          if IsNotInPipeline pv then pipelineHead
          else if Weight (tree_at t pipelineHead) < Weight pv then bk
          else if Weight (tree_at t pipelineHead) = Weight pv
                  \<and> PullRequestNumber pipelineHead > PullRequestNumber bk then bk
          else pipelineHead)"

text \<open>
  The second loop has no bound of its own: it ends when it leaves \<^verbatim>\<open>os.Branches\<close> or
  meets a passing branch.  The outer \<open>option\<close> is \<open>None\<close> when the loop does not
  return; the inner one is the returned pointer, \<open>None\<close> for \<^verbatim>\<open>nil\<close>.
\<close>

partial_function (option) walkBack ::
  "State \<Rightarrow> PipelineTree \<Rightarrow> BranchKey \<Rightarrow> CommitID option option" where
  "walkBack os t pipelineHead =
     (case fmlookup (Branches os) pipelineHead of
        None \<Rightarrow> Some None
      | Some bv \<Rightarrow>
          if IsCheckPass bv then Some (Some (CommitID bv))
          else walkBack os t (Predecessor (tree_at t pipelineHead)))"

definition FindFastForward ::
  "State \<Rightarrow> PipelineTree \<Rightarrow> BranchKey list \<Rightarrow> CommitID option option" where
  "FindFastForward os t ks = walkBack os t (fold (selectHead t) ks zeroBranchKey)"

subsection \<open>ToDecoratedWithPullRequests\<close>

text \<open>
  The two regular expressions, matched by hand.  In Go's syntax \<^verbatim>\<open>\s\<close> is one of tab,
  newline, form feed, carriage return and space, and \<^verbatim>\<open>.\<close> is any character but
  newline.  Both expressions are anchored at both ends of the text, and each
  alternative starts with a character that is not white space, so the white space before
  it is matched as a whole.
\<close>

definition isSpace :: "char \<Rightarrow> bool" where
  "isSpace c = ((of_char c :: nat) \<in> {9, 10, 12, 13, 32})"

text \<open>\<^verbatim>\<open>^\s*bors\s+\<close>: the text that follows, when the line starts this way.\<close>

definition borsCommand :: "string \<Rightarrow> string option" where
  "borsCommand line =
     (let s1 = dropWhile isSpace line in
      if \<not> HasPrefix s1 ''bors'' then None
      else
        let s2 = drop 4 s1 in
        if s2 = [] \<or> \<not> isSpace (hd s2) then None else Some (dropWhile isSpace s2))"

text \<open>\<^verbatim>\<open>\s*$\<close> and \<^verbatim>\<open>.*\s*$\<close>.\<close>

definition spaceToEnd :: "string \<Rightarrow> bool" where
  "spaceToEnd r = list_all isSpace r"

definition anyThenSpaceToEnd :: "string \<Rightarrow> bool" where
  "anyThenSpaceToEnd r = (CHR 0x0A \<notin> set (rev (dropWhile isSpace (rev r))))"

definition borsMergeRe :: "string \<Rightarrow> bool" where
  "borsMergeRe line =
     (case borsCommand line of
        None \<Rightarrow> False
      | Some r \<Rightarrow>
          (HasPrefix r ''r+'' \<and> spaceToEnd (drop 2 r))
          \<or> (HasPrefix r ''r='' \<and> anyThenSpaceToEnd (drop 2 r))
          \<or> (HasPrefix r ''merge'' \<and> spaceToEnd (drop 5 r))
          \<or> (HasPrefix r ''merge='' \<and> anyThenSpaceToEnd (drop 6 r)))"

definition borsCancelRe :: "string \<Rightarrow> bool" where
  "borsCancelRe line =
     (case borsCommand line of
        None \<Rightarrow> False
      | Some r \<Rightarrow>
          (HasPrefix r ''r-'' \<and> spaceToEnd (drop 2 r))
          \<or> (HasPrefix r ''merge-'' \<and> spaceToEnd (drop 6 r))
          \<or> (HasPrefix r ''cancel'' \<and> spaceToEnd (drop 6 r)))"

text \<open>The body of the callback, for one line and for one comment.\<close>

definition commentLine ::
  "PullRequestNumber \<Rightarrow> string \<Rightarrow> (PullRequestNumber, bool) fmap
     \<Rightarrow> (PullRequestNumber, bool) fmap" where
  "commentLine number line numbers =
     (let numbers = (if borsMergeRe line then fmupd number False numbers else numbers)
      in if borsCancelRe line then fmupd number True numbers else numbers)"

definition onComment ::
  "PullRequestNumber \<times> string \<Rightarrow> (PullRequestNumber, bool) fmap
     \<Rightarrow> (PullRequestNumber, bool) fmap" where
  "onComment c numbers =
     (case c of (number, msg) \<Rightarrow> fold (commentLine number) (Split msg CHR 0x0A) numbers)"

text \<open>
  The map \<^verbatim>\<open>numbers\<close> before the last loop: \<open>ks\<close> is the order of the visit of
  \<^verbatim>\<open>ns.Branches\<close>, \<open>comments\<close> the calls of the callback by ListAllCommentsSince.
\<close>

definition decorateNumbers ::
  "State \<Rightarrow> (PullRequestNumber \<times> string) list \<Rightarrow> BranchKey list
     \<Rightarrow> (PullRequestNumber, bool) fmap" where
  "decorateNumbers os comments ks =
     fold onComment comments
       (fold (\<lambda>bk numbers. fmupd (PullRequestNumber bk) False numbers) ks fmempty)"

definition decorateStep ::
  "(PullRequestNumber, bool) fmap \<Rightarrow> (PullRequestNumber \<Rightarrow> CommitID option)
     \<Rightarrow> PullRequestNumber \<Rightarrow> State \<Rightarrow> State" where
  "decorateStep numbers getMergeablePullRequestHead number ns =
     (case fmlookup numbers number of
        None \<Rightarrow> ns
      | Some isCancelled \<Rightarrow>
          if isCancelled
          then ns\<lparr>CancelledPullRequests := insert number (CancelledPullRequests ns)\<rparr>
          else
            (case getMergeablePullRequestHead number of
               None \<Rightarrow> ns
             | Some c \<Rightarrow>
                 ns\<lparr>MergeablePullRequests := fmupd number c (MergeablePullRequests ns)\<rparr>))"

text \<open>
  \<open>getMergeablePullRequestHead\<close> is the answer of the client for each number, \<open>ks\<close>
  the order of the visit of \<^verbatim>\<open>ns.Branches\<close> and \<open>ns\<close> that of \<^verbatim>\<open>numbers\<close>.
\<close>

definition ToDecoratedWithPullRequests ::
  "State \<Rightarrow> (PullRequestNumber \<times> string) list \<Rightarrow> (PullRequestNumber \<Rightarrow> CommitID option)
     \<Rightarrow> BranchKey list \<Rightarrow> PullRequestNumber list \<Rightarrow> State" where
  "ToDecoratedWithPullRequests os comments getMergeablePullRequestHead ks ns =
     fold (decorateStep (decorateNumbers os comments ks) getMergeablePullRequestHead) ns
       (deepCopy os)"

subsection \<open>ToPrunedCancelledPullRequests\<close>

definition ToPrunedCancelledPullRequests :: "State \<Rightarrow> BranchKey list \<Rightarrow> State \<times> Call list" where
  "ToPrunedCancelledPullRequests os ks =
     (case fold (\<lambda>bk (ns, calls).
                   if PullRequestNumber bk \<in> CancelledPullRequests ns
                   then (ns\<lparr>Branches := fmdrop bk (Branches ns)\<rparr>, calls @ [DeleteBranch bk])
                   else (ns, calls))
             ks (deepCopy os, [])
      of (ns, calls) \<Rightarrow> (ns\<lparr>CancelledPullRequests := {}\<rparr>, calls))"

subsection \<open>NextMergeablePullRequest and CreateBranchesForPullRequest\<close>

text \<open>\<open>ks\<close> is the order of the visit of \<^verbatim>\<open>os.Branches\<close>, \<open>ns\<close> that of
  \<^verbatim>\<open>os.MergeablePullRequests\<close>.\<close>

definition NextMergeablePullRequest ::
  "State \<Rightarrow> BranchKey list \<Rightarrow> PullRequestNumber list \<Rightarrow> PullRequestNumber" where
  "NextMergeablePullRequest os ks ns =
     (let numbersInBranches = fold (\<lambda>bk S. insert (PullRequestNumber bk) S) ks {}
      in fold (\<lambda>number nextNumber.
                 if number \<in> numbersInBranches then nextNumber
                 else if nextNumber = 0 \<or> nextNumber > number then number
                 else nextNumber)
           ns 0)"

definition createStep ::
  "State \<Rightarrow> PipelineTree \<Rightarrow> CommitID \<Rightarrow> BranchKey \<Rightarrow> BranchKey \<times> Call list
     \<Rightarrow> BranchKey \<times> Call list" where
  "createStep os t pullRequestHead pk st =
     (case st of (bk, calls) \<Rightarrow>
        (case fmlookup t pk of
           None \<Rightarrow> st
         | Some pv \<Rightarrow>
             if IsNotInPipeline pv then st
             else
               let bk' = bk\<lparr>PipelineCounter := PipelineCounter bk + 1\<rparr>
               in (bk', calls @ [CreateBranch bk' (CommitID (branch_at os pk)),
                                 MergeBranch bk' pullRequestHead])))"

definition CreateBranchesForPullRequest ::
  "State \<Rightarrow> PipelineTree \<Rightarrow> PullRequestNumber \<Rightarrow> BranchKey list \<Rightarrow> Call list" where
  "CreateBranchesForPullRequest os t number ks =
     (let bk = \<lparr>PipelineCounter = 1, PullRequestNumber = number\<rparr> in
      case fmlookup (MergeablePullRequests os) (PullRequestNumber bk) of
        None \<Rightarrow> []
      | Some pullRequestHead \<Rightarrow>
          snd (fold (createStep os t pullRequestHead) ks
                 (bk, [CreateBranch bk (Base os), MergeBranch bk pullRequestHead])))"

subsection \<open>The states of the control loop (main.go)\<close>

text \<open>
  StateMachine builds every state from a freshly fetched one: it prunes the orphans,
  decorates the result, and prunes the cancelled pull requests.  The answers of the
  client and the orders of the visits are arbitrary.
\<close>

datatype Stage = Fetched | OrphansPruned | Decorated | CancelledPruned

inductive reached :: "Stage \<Rightarrow> State \<Rightarrow> bool" where
  fetch: "reached Fetched (FetchMergeCandidateBranchState baseHead listed getBranch)"
| orphans: "reached Fetched s
     \<Longrightarrow> reached OrphansPruned (fst (ToPrunedOrphanedBranches s (BuildPipelineTree s ord) ks))"
| decorate: "reached OrphansPruned s
     \<Longrightarrow> reached Decorated (ToDecoratedWithPullRequests s comments getHead ks ns)"
| cancelled: "reached Decorated s
     \<Longrightarrow> reached CancelledPruned (fst (ToPrunedCancelledPullRequests s ks))"

section \<open>Notions of the specification\<close>

subsection \<open>Branch names\<close>

text \<open>
  A non-empty field of decimal digits with a strictly positive value, and the shape of
  a candidate branch name: the prefix, such a field, a hyphen, such a field.  The
  shape is computed without \<open>Split\<close>: the first field ends at the first hyphen.
\<close>

definition decimalField :: "string \<Rightarrow> bool" where
  "decimalField f = (f \<noteq> [] \<and> list_all is_digit f \<and> 0 < digits_val f)"

definition candidateNameShape :: "string \<Rightarrow> bool" where
  "candidateNameShape s =
     (HasPrefix s ''merge-candidate-''
      \<and> (let rest = drop (length ''merge-candidate-'') s;
              f1 = takeWhile (\<lambda>c. c \<noteq> CHR ''-'') rest;
              r2 = dropWhile (\<lambda>c. c \<noteq> CHR ''-'') rest
          in r2 \<noteq> [] \<and> decimalField f1 \<and> decimalField (tl r2)))"

text \<open>The same field with an optional plus sign in front.\<close>

definition signedField :: "string \<Rightarrow> bool" where
  "signedField f = (decimalField f \<or> (f \<noteq> [] \<and> hd f = CHR ''+'' \<and> decimalField (tl f)))"

subsection \<open>The pipeline tree\<close>

text \<open>
  \<open>chain t bk ks\<close>: walking the predecessors of \<open>bk\<close> in \<open>t\<close> meets the branches \<open>ks\<close>,
  \<open>bk\<close> first, and then arrives at the zero key, which stands for the base.
\<close>

inductive chain :: "PipelineTree \<Rightarrow> BranchKey \<Rightarrow> BranchKey list \<Rightarrow> bool" where
  at_base: "chain t zeroBranchKey []"
| pred: "bk \<noteq> zeroBranchKey \<Longrightarrow> fmlookup t bk = Some pv \<Longrightarrow> chain t (Predecessor pv) ks
     \<Longrightarrow> chain t bk (bk # ks)"

text \<open>A branch that is invalid, or whose checks are done and did not pass.\<close>

definition branchFails :: "State \<Rightarrow> BranchKey \<Rightarrow> bool" where
  "branchFails os k =
     (case fmlookup (Branches os) k of
        None \<Rightarrow> False
      | Some bv \<Rightarrow> \<not> isValid bv \<or> (IsCheckDone bv \<and> \<not> IsCheckPass bv))"

definition placed :: "State \<Rightarrow> PipelineTree \<Rightarrow> BranchKey \<Rightarrow> PipelineValue \<Rightarrow> bool" where
  "placed os t bk pv =
     (\<exists>ks. chain t bk ks \<and> Weight pv = int (length ks)
        \<and> (IsNotInPipeline pv \<longleftrightarrow> (\<exists>k\<in>set ks. branchFails os k)))"

text \<open>The invariant of the loops of BuildPipelineTree.\<close>

definition treeInv :: "State \<Rightarrow> PipelineTree \<Rightarrow> (CommitID, BranchKey) fmap \<Rightarrow> bool" where
  "treeInv os t shas =
     (fmdom' t \<subseteq> fmdom' (Branches os)
      \<and> (\<forall>c k. fmlookup shas c = Some k \<longrightarrow> k = zeroBranchKey \<or> k \<in> fmdom' t)
      \<and> (\<forall>bk pv. fmlookup t bk = Some pv \<longrightarrow> placed os t bk pv))"

subsection \<open>Concrete states\<close>

definition key :: "PullRequestNumber \<Rightarrow> int \<Rightarrow> BranchKey" where
  "key n c = \<lparr>PipelineCounter = c, PullRequestNumber = n\<rparr>"

definition branch :: "CommitID \<Rightarrow> CommitID list \<Rightarrow> bool \<Rightarrow> bool \<Rightarrow> bool \<Rightarrow> BranchValue" where
  "branch h ps v d p =
     \<lparr>CommitID = h, Parents = ps, isValid = v, IsCheckDone = d, IsCheckPass = p\<rparr>"

text \<open>
  A candidate of pull request 1 on the base, a failed candidate of pull request 2 on
  top of it, and an orphan.
\<close>

definition exState :: State where
  "exState =
     \<lparr>Base = ''main'',
      Branches = fmap_of_list
        [(key 1 1, branch ''a'' [''main'', ''pr-1''] True False False),
         (key 2 2, branch ''b'' [''a'', ''pr-2''] True True False),
         (key 3 1, branch ''c'' [''zzz''] True False False)],
      MergeablePullRequests = fmap_of_list [(4, ''pr-4''), (7, ''pr-7''), (1, ''pr-1'')],
      CancelledPullRequests = {}\<rparr>"

definition exOrder :: "nat \<Rightarrow> BranchKey list" where
  "exOrder i = [key 2 2, key 3 1, key 1 1]"

subsection \<open>The fast-forward\<close>

text \<open>An entry of the tree that is still in the pipeline.\<close>

definition viable :: "PipelineTree \<Rightarrow> BranchKey \<Rightarrow> bool" where
  "viable t k = (case fmlookup t k of None \<Rightarrow> False | Some pv \<Rightarrow> \<not> IsNotInPipeline pv)"

text \<open>\<open>k\<close> is preferred to \<open>h\<close>: a greater weight, or the same weight and a smaller
  pull-request number.\<close>

definition better :: "PipelineTree \<Rightarrow> BranchKey \<Rightarrow> BranchKey \<Rightarrow> bool" where
  "better t k h =
     (Weight (tree_at t h) < Weight (tree_at t k)
      \<or> (Weight (tree_at t h) = Weight (tree_at t k)
          \<and> PullRequestNumber h > PullRequestNumber k))"

text \<open>
  An entry of maximum weight among the viable ones and, among those of maximum weight,
  of smallest pull-request number.
\<close>

definition isPipelineTip :: "PipelineTree \<Rightarrow> BranchKey \<Rightarrow> bool" where
  "isPipelineTip t h =
     (viable t h
      \<and> (\<forall>k\<in>fmdom' t. viable t k \<longrightarrow>
            Weight (tree_at t k) < Weight (tree_at t h)
            \<or> (Weight (tree_at t k) = Weight (tree_at t h)
                \<and> PullRequestNumber h \<le> PullRequestNumber k)))"

text \<open>The head of the first branch of a list whose checks have passed.\<close>

definition firstPassing :: "State \<Rightarrow> BranchKey list \<Rightarrow> CommitID option" where
  "firstPassing os ks =
     (case List.find (\<lambda>k. IsCheckPass (branch_at os k)) ks of
        None \<Rightarrow> None
      | Some k \<Rightarrow> Some (CommitID (branch_at os k)))"

text \<open>What the first loop of FindFastForward has chosen after the keys \<open>S\<close>, from \<open>h0\<close>.\<close>

definition selected :: "PipelineTree \<Rightarrow> BranchKey set \<Rightarrow> BranchKey \<Rightarrow> BranchKey \<Rightarrow> bool" where
  "selected t S h0 h =
     ((h = h0 \<and> (\<forall>k\<in>S. viable t k \<longrightarrow> \<not> better t k h0))
      \<or> (h \<in> S \<and> viable t h \<and> better t h h0 \<and> (\<forall>k\<in>S. viable t k \<longrightarrow> \<not> better t k h)))"

text \<open>
  Two pending candidates on the base, for pull requests 1 and 2, and two candidates of
  pull request 3 whose checks have passed, one on top of each.
\<close>

definition tieState :: State where
  "tieState =
     \<lparr>Base = ''main'',
      Branches = fmap_of_list
        [(key 1 1, branch ''a'' [''main'', ''pr-1''] True False False),
         (key 2 1, branch ''b'' [''main'', ''pr-2''] True False False),
         (key 3 2, branch ''x'' [''a'', ''pr-3''] True True True),
         (key 3 3, branch ''y'' [''b'', ''pr-3''] True True True)],
      MergeablePullRequests = fmap_of_list [(3, ''pr-3'')],
      CancelledPullRequests = {}\<rparr>"

definition tieOrder :: "nat \<Rightarrow> BranchKey list" where
  "tieOrder i = [key 1 1, key 2 1, key 3 2, key 3 3]"

definition tieTree :: PipelineTree where
  "tieTree = BuildPipelineTree tieState tieOrder"

text \<open>
  At most one entry is of maximum weight among those in the pipeline and, among those of
  maximum weight, of smallest pull-request number.
\<close>

definition tieFree :: "PipelineTree \<Rightarrow> bool" where
  "tieFree t =
     (\<forall>h\<in>fmdom' t. \<forall>h'\<in>fmdom' t. isPipelineTip t h \<and> isPipelineTip t h' \<longrightarrow> h = h')"

subsection \<open>The scheduler\<close>

text \<open>The mergeable pull requests that have no candidate branch.\<close>

definition schedulable :: "State \<Rightarrow> PullRequestNumber set" where
  "schedulable os =
     {n \<in> fmdom' (MergeablePullRequests os).
        \<forall>bk\<in>fmdom' (Branches os). PullRequestNumber bk \<noteq> n}"

text \<open>
  The calls that create the candidates of pull request \<open>number\<close> with head \<open>h\<close>: one
  on the base with counter 1, then one on each of \<open>tips\<close>, with the counters \<open>c\<close>,
  \<open>c + 1\<close> and so on.
\<close>

fun tipCalls ::
  "State \<Rightarrow> PullRequestNumber \<Rightarrow> CommitID \<Rightarrow> int \<Rightarrow> BranchKey list \<Rightarrow> Call list" where
  "tipCalls os number h c [] = []"
| "tipCalls os number h c (pk # pks) =
     CreateBranch (key number c) (CommitID (branch_at os pk))
       # MergeBranch (key number c) h # tipCalls os number h (c + 1) pks"

definition scheduleCalls ::
  "State \<Rightarrow> PullRequestNumber \<Rightarrow> CommitID \<Rightarrow> BranchKey list \<Rightarrow> Call list" where
  "scheduleCalls os number h tips =
     CreateBranch (key number 1) (Base os) # MergeBranch (key number 1) h
       # tipCalls os number h 2 tips"

subsection \<open>Orphans\<close>

text \<open>
  The branches connected to the base: a parent of the tip is the head of the base or
  the head of a connected branch.
\<close>

inductive_set connected :: "State \<Rightarrow> BranchKey set" for os :: State where
  root: "fmlookup (Branches os) bk = Some bv \<Longrightarrow> Base os \<in> set (Parents bv)
     \<Longrightarrow> bk \<in> connected os"
| link: "fmlookup (Branches os) bk = Some bv \<Longrightarrow> k \<in> connected os
     \<Longrightarrow> fmlookup (Branches os) k = Some kv \<Longrightarrow> CommitID kv \<in> set (Parents bv)
     \<Longrightarrow> bk \<in> connected os"

text \<open>A second invariant of the loops of BuildPipelineTree: who is in \<^verbatim>\<open>shas\<close>.\<close>

definition ownerInv :: "State \<Rightarrow> PipelineTree \<Rightarrow> (CommitID, BranchKey) fmap \<Rightarrow> bool" where
  "ownerInv os t shas =
     (fmdom' t \<subseteq> connected os
      \<and> fmdom' shas
          = insert (Base os)
              {c. \<exists>k bv. k \<in> fmdom' t \<and> fmlookup (Branches os) k = Some bv \<and> c = CommitID bv})"

text \<open>
  The candidate \<open>(1, 1)\<close> of pull request 1 on the base; the candidate \<open>(4, 2)\<close> of
  pull request 4, created on top of it, whose merge met a conflict: it still points at
  the commit of \<open>(1, 1)\<close>, whose message is not its own name, so it is not valid; and
  the candidate \<open>(2, 2)\<close> of pull request 2 on top of that commit.
\<close>

definition conflictState :: State where
  "conflictState =
     \<lparr>Base = ''main'',
      Branches = fmap_of_list
        [(key 1 1, branch ''a'' [''main'', ''pr-1''] True False False),
         (key 4 2, branch ''a'' [''main'', ''pr-1''] False False False),
         (key 2 2, branch ''c'' [''a'', ''pr-2''] True False False)],
      MergeablePullRequests = fmempty,
      CancelledPullRequests = {}\<rparr>"

definition conflictOrder :: "nat \<Rightarrow> BranchKey list" where
  "conflictOrder i = [key 1 1, key 4 2, key 2 2]"

definition conflictOrder' :: "nat \<Rightarrow> BranchKey list" where
  "conflictOrder' i = [key 4 2, key 1 1, key 2 2]"

definition conflictTree :: PipelineTree where
  "conflictTree = BuildPipelineTree conflictState conflictOrder"

definition conflictPruned :: State where
  "conflictPruned =
     fst (ToPrunedOrphanedBranches conflictState conflictTree [key 1 1, key 4 2, key 2 2])"

text \<open>The first example state after its orphan has been pruned.\<close>

definition exTree :: PipelineTree where
  "exTree = BuildPipelineTree exState exOrder"

definition exPruned :: State where
  "exPruned = fst (ToPrunedOrphanedBranches exState exTree [key 1 1, key 2 2, key 3 1])"

definition exOrder' :: "nat \<Rightarrow> BranchKey list" where
  "exOrder' i = [key 2 2, key 1 1]"

subsection \<open>The intent of the comments\<close>

datatype Intent = Merge | Cancel

text \<open>The directives of a line, of a comment as far as it is on pull request \<open>n\<close>, and
  of all the comments on \<open>n\<close>, in the order in which they are read.\<close>

definition lineIntents :: "string \<Rightarrow> Intent list" where
  "lineIntents line =
     (if borsMergeRe line then [Merge] else []) @ (if borsCancelRe line then [Cancel] else [])"

definition commentIntents :: "PullRequestNumber \<Rightarrow> PullRequestNumber \<times> string \<Rightarrow> Intent list" where
  "commentIntents n c =
     (case c of (number, msg) \<Rightarrow>
        if number = n then concat (map lineIntents (Split msg CHR 0x0A)) else [])"

definition directives :: "(PullRequestNumber \<times> string) list \<Rightarrow> PullRequestNumber \<Rightarrow> Intent list" where
  "directives comments n = concat (map (commentIntents n) comments)"

text \<open>
  The intent for a pull request: the last directive on it; without any directive,
  merge when the pull request owns a candidate branch, and none otherwise.
\<close>

definition intent ::
  "State \<Rightarrow> (PullRequestNumber \<times> string) list \<Rightarrow> PullRequestNumber \<Rightarrow> Intent option" where
  "intent os comments n =
     (if directives comments n \<noteq> [] then Some (last (directives comments n))
      else if n \<in> PullRequestNumber ` fmdom' (Branches os) then Some Merge
      else None)"

text \<open>The effect of a list of directives on an entry of \<^verbatim>\<open>numbers\<close>.\<close>

definition applyIntents :: "Intent list \<Rightarrow> bool option \<Rightarrow> bool option" where
  "applyIntents ds old = (if ds = [] then old else Some (last ds = Cancel))"

text \<open>
  Two candidate branches, for the pull requests 1 and 2; a request to merge 2, then a
  comment that cancels it, and a request to merge 5.
\<close>

definition decState :: State where
  "decState =
     \<lparr>Base = ''main'',
      Branches = fmap_of_list
        [(key 1 1, branch ''a'' [''main'', ''pr-1''] True False False),
         (key 2 2, branch ''b'' [''a'', ''pr-2''] True False False)],
      MergeablePullRequests = fmempty,
      CancelledPullRequests = {}\<rparr>"

definition decComments :: "(PullRequestNumber \<times> string) list" where
  "decComments =
     [(2, ''bors r+''),
      (2, [CHR ''o'', CHR ''k'', CHR 0x0A, CHR '' '', CHR ''b'', CHR ''o'', CHR ''r'',
           CHR ''s'', CHR 0x09, CHR ''c'', CHR ''a'', CHR ''n'', CHR ''c'', CHR ''e'',
           CHR ''l'', CHR '' '']),
      (5, ''bors merge=a b'')]"

definition decHeads :: "PullRequestNumber \<Rightarrow> CommitID option" where
  "decHeads n = (if n = 1 then Some ''pr-1'' else if n = 5 then Some ''pr-5'' else None)"

subsection \<open>The control loop\<close>

text \<open>What holds of the two sets of pull requests at each stage of a cycle.\<close>

definition stageInv :: "Stage \<Rightarrow> State \<Rightarrow> bool" where
  "stageInv stage s =
     (case stage of
        Fetched \<Rightarrow> MergeablePullRequests s = fmempty \<and> CancelledPullRequests s = {}
      | OrphansPruned \<Rightarrow> MergeablePullRequests s = fmempty \<and> CancelledPullRequests s = {}
      | Decorated \<Rightarrow> fmdom' (MergeablePullRequests s) \<inter> CancelledPullRequests s = {}
      | CancelledPruned \<Rightarrow> CancelledPullRequests s = {})"

text \<open>The first three states of a cycle, for a repository with one candidate branch.\<close>

definition loopFetched :: State where
  "loopFetched =
     FetchMergeCandidateBranchState ''main'' [key 1 1]
       (\<lambda>bk. branch ''a'' [''main'', ''pr-1''] True False False)"

definition loopPruned :: State where
  "loopPruned =
     fst (ToPrunedOrphanedBranches loopFetched
            (BuildPipelineTree loopFetched (\<lambda>i. [key 1 1])) [key 1 1])"

definition loopDecorated :: State where
  "loopDecorated =
     ToDecoratedWithPullRequests loopPruned decComments decHeads [key 1 1] [1, 2, 5]"

section \<open>Branch names: formatting and parsing\<close>

lemma digit_val_digit_char: "d < 10 \<Longrightarrow> digit_val (digit_char d) = d"
  by (simp add: digit_val_def digit_char_def)

lemma is_digit_digit_char: "d < 10 \<Longrightarrow> is_digit (digit_char d)"
  by (simp add: is_digit_def digit_char_def)

lemma is_digit_not_dash: "is_digit c \<Longrightarrow> c \<noteq> CHR ''-''"
  by (auto simp: is_digit_def)

lemma is_digit_not_plus: "is_digit c \<Longrightarrow> c \<noteq> CHR ''+''"
  by (auto simp: is_digit_def)

lemma fmt_nat_digits: "list_all is_digit (fmt_nat n)"
proof (induction n rule: fmt_nat.induct)
  case (1 n)
  show ?case
  proof (cases "n < 10")
    case True
    then show ?thesis by (simp add: fmt_nat.simps [of n] is_digit_digit_char)
  next
    case False
    with 1 show ?thesis by (simp add: fmt_nat.simps [of n] is_digit_digit_char)
  qed
qed

lemma fmt_nat_nonempty: "fmt_nat n \<noteq> []"
  by (subst fmt_nat.simps) simp

lemma digits_val_snoc: "digits_val (ds @ [c]) = digits_val ds * 10 + digit_val c"
  by (simp add: digits_val_def)

lemma digits_val_fmt_nat: "digits_val (fmt_nat n) = n"
proof (induction n rule: fmt_nat.induct)
  case (1 n)
  show ?case
  proof (cases "n < 10")
    case True
    then show ?thesis
      by (simp add: fmt_nat.simps [of n] digits_val_def digit_val_digit_char)
  next
    case False
    with 1 show ?thesis
      by (simp add: fmt_nat.simps [of n] digits_val_snoc digit_val_digit_char)
  qed
qed

lemma Split_no_sep: "sep \<notin> set s \<Longrightarrow> Split s sep = [s]"
  by (induction s) auto

lemma Split_append: "sep \<notin> set a \<Longrightarrow> Split (a @ sep # b) sep = a # Split b sep"
  by (induction a) auto

lemma Split_nonempty: "Split s sep \<noteq> []"
  by (induction s) (auto split: list.splits)

lemma Split_one: "Split s sep = [a] \<Longrightarrow> s = a"
  by (induction s arbitrary: a) (auto simp: Split_nonempty split: if_splits list.splits)

lemma Split_two: "Split s sep = [a, b] \<Longrightarrow> s = a @ sep # b"
proof (induction s arbitrary: a)
  case Nil
  then show ?case by simp
next
  case (Cons c cs)
  show ?case
  proof (cases "c = sep")
    case True
    with Cons.prems have "a = []" "Split cs sep = [b]" by simp_all
    then show ?thesis using True by (simp add: Split_one)
  next
    case False
    with Cons.prems obtain p where "a = c # p" "Split cs sep = [p, b]"
      by (auto split: list.splits)
    then show ?thesis using Cons.IH [of p] by simp
  qed
qed

lemma Atoi_fmt_nat:
  assumes "int n \<le> maxInt"
  shows "Atoi (fmt_nat n) = (int n, None)"
proof -
  have d: "list_all is_digit (fmt_nat n)" by (rule fmt_nat_digits)
  have ne: "fmt_nat n \<noteq> []" by (rule fmt_nat_nonempty)
  from d ne have "is_digit (hd (fmt_nat n))"
    by (cases "fmt_nat n") auto
  then have "hd (fmt_nat n) \<noteq> CHR ''-''" "hd (fmt_nat n) \<noteq> CHR ''+''"
    by (auto dest: is_digit_not_dash is_digit_not_plus)
  with d ne assms show ?thesis
    by (simp add: Atoi_def digits_val_fmt_nat)
qed

lemma Atoi_positive:
  assumes "Atoi f = (n, None)" and "0 < n"
  shows "signedField f"
proof (cases "f \<noteq> [] \<and> hd f = CHR ''-''")
  case True
  with assms show ?thesis
    by (auto simp: Atoi_def Let_def split: if_splits)
next
  case False
  show ?thesis
  proof (cases "f \<noteq> [] \<and> hd f = CHR ''+''")
    case True
    with assms have "tl f \<noteq> []" "list_all is_digit (tl f)" "0 < digits_val (tl f)"
      by (auto simp: Atoi_def Let_def split: if_splits)
    with True show ?thesis by (simp add: signedField_def decimalField_def)
  next
    case nosign: False
    with False assms have "f \<noteq> []" "list_all is_digit f" "0 < digits_val f"
      by (auto simp: Atoi_def Let_def split: if_splits)
    then show ?thesis by (simp add: signedField_def decimalField_def)
  qed
qed

lemma ParseBranchKey_BranchName:
  assumes "0 < p" "p \<le> maxInt" "0 < c" "c \<le> maxInt"
  shows "ParseBranchKey (BranchName \<lparr>PipelineCounter = c, PullRequestNumber = p\<rparr>)
           = (\<lparr>PipelineCounter = c, PullRequestNumber = p\<rparr>, True)"
proof -
  let ?fp = "fmt_nat (nat p)" and ?fc = "fmt_nat (nat c)"
  have nd: "CHR ''-'' \<notin> set ?fp" "CHR ''-'' \<notin> set ?fc"
    using fmt_nat_digits [of "nat p"] fmt_nat_digits [of "nat c"]
    by (auto simp: list_all_iff dest: is_digit_not_dash)
  have name: "BranchName \<lparr>PipelineCounter = c, PullRequestNumber = p\<rparr>
                = ''merge-candidate-'' @ ?fp @ CHR ''-'' # ?fc"
    using assms by (simp add: BranchName_def MergeCandidateBranchPrefix_def fmt_d_def)
  have parts: "Split (?fp @ CHR ''-'' # ?fc) CHR ''-'' = [?fp, ?fc]"
    using nd by (simp add: Split_append Split_no_sep)
  have ap: "Atoi ?fp = (p, None)" and ac: "Atoi ?fc = (c, None)"
    using assms by (simp_all add: Atoi_fmt_nat)
  show ?thesis
    unfolding name
    using assms
    by (simp add: ParseBranchKey_def MergeCandidateBranchPrefix_def HasPrefix_def parts ap ac
        zeroBranchKey_def)
qed

lemma decimalField_no_dash: "decimalField f \<Longrightarrow> CHR ''-'' \<notin> set f"
  by (auto simp: decimalField_def list_all_iff dest: is_digit_not_dash)

text \<open>The computed shape is the one the words describe.\<close>

lemma HasPrefix_append: "HasPrefix s p \<Longrightarrow> s = p @ drop (length p) s"
  unfolding HasPrefix_def by (metis append_take_drop_id)

lemma shape_iff:
  "(HasPrefix s p
    \<and> (let rest = drop (length p) s;
            f1 = takeWhile (\<lambda>c. c \<noteq> CHR ''-'') rest;
            r2 = dropWhile (\<lambda>c. c \<noteq> CHR ''-'') rest
        in r2 \<noteq> [] \<and> decimalField f1 \<and> decimalField (tl r2)))
   \<longleftrightarrow> (\<exists>f1 f2. s = p @ f1 @ ''-'' @ f2 \<and> decimalField f1 \<and> decimalField f2)"
  (is "?L \<longleftrightarrow> ?R")
proof
  assume sh: ?L
  let ?rest = "drop (length p) s"
  let ?f1 = "takeWhile (\<lambda>c. c \<noteq> CHR ''-'') ?rest"
  let ?r2 = "dropWhile (\<lambda>c. c \<noteq> CHR ''-'') ?rest"
  from sh have pre: "HasPrefix s p" and r2: "?r2 \<noteq> []"
    and f1: "decimalField ?f1" and f2: "decimalField (tl ?r2)"
    by (simp_all add: Let_def)
  from r2 have "hd ?r2 = CHR ''-''"
    using hd_dropWhile [of "\<lambda>c. c \<noteq> CHR ''-''" ?rest] by simp
  moreover from r2 have "hd ?r2 # tl ?r2 = ?r2"
    by (rule hd_Cons_tl)
  ultimately have "?r2 = CHR ''-'' # tl ?r2"
    by (simp only:)
  then have "?rest = ?f1 @ CHR ''-'' # tl ?r2"
    using takeWhile_dropWhile_id [of "\<lambda>c. c \<noteq> CHR ''-''" ?rest] by simp
  with HasPrefix_append [OF pre] have "s = p @ ?f1 @ ''-'' @ tl ?r2"
    by simp
  with f1 f2 show ?R
    by blast
next
  assume ?R
  then obtain f1 f2 where s: "s = p @ f1 @ ''-'' @ f2"
    and f1: "decimalField f1" and f2: "decimalField f2"
    by blast
  have nd: "\<forall>c\<in>set f1. c \<noteq> CHR ''-''"
    using decimalField_no_dash [OF f1] by auto
  have "takeWhile (\<lambda>c. c \<noteq> CHR ''-'') (f1 @ CHR ''-'' # f2) = f1"
    using nd by (simp add: takeWhile_tail)
  moreover have "dropWhile (\<lambda>c. c \<noteq> CHR ''-'') (f1 @ CHR ''-'' # f2) = CHR ''-'' # f2"
    using nd by (simp add: dropWhile_append3)
  ultimately show ?L
    using f1 f2 by (simp add: HasPrefix_def s)
qed

text \<open>The computed shape is the one the words describe.\<close>

lemma candidateNameShape_iff:
  "candidateNameShape s \<longleftrightarrow>
     (\<exists>f1 f2. s = ''merge-candidate-'' @ f1 @ ''-'' @ f2 \<and> decimalField f1 \<and> decimalField f2)"
  unfolding candidateNameShape_def by (rule shape_iff)

text \<open>
  C9.  For all strictly positive values \<open>p\<close> and \<open>c\<close> of Go's type \<^verbatim>\<open>int\<close>, that is the
  signed values of 64-bit words, parsing the name of the branch key \<open>(p, c)\<close> gives the
  key back, with \<^verbatim>\<open>ok = true\<close>.
\<close>

theorem BranchName_roundtrip:
  fixes p c :: "64 word"
  assumes "0 <s p" and "0 <s c"
  shows "ParseBranchKey (BranchName \<lparr>PipelineCounter = sint c, PullRequestNumber = sint p\<rparr>)
           = (\<lparr>PipelineCounter = sint c, PullRequestNumber = sint p\<rparr>, True)"
proof -
  have "sint p \<le> maxInt" "sint c \<le> maxInt"
    using sint_lt [of p] sint_lt [of c] by (simp_all add: maxInt_def)
  moreover have "0 < sint p" "0 < sint c"
    using assms by (simp_all add: word_sless_alt)
  ultimately show ?thesis by (simp add: ParseBranchKey_BranchName)
qed

theorem BranchName_roundtrip_witness:
  "0 <s (345 :: 64 word) \<and> 0 <s (12 :: 64 word)
   \<and> BranchName \<lparr>PipelineCounter = 12, PullRequestNumber = 345\<rparr> = ''merge-candidate-345-12''
   \<and> ParseBranchKey ''merge-candidate-345-12''
       = (\<lparr>PipelineCounter = 12, PullRequestNumber = 345\<rparr>, True)"
proof -
  have h: "0 <s (345 :: 64 word)" "0 <s (12 :: 64 word)"
    by (simp_all add: word_sless_alt)
  have n: "BranchName \<lparr>PipelineCounter = 12, PullRequestNumber = 345\<rparr>
             = ''merge-candidate-345-12''"
    by code_simp
  show ?thesis
    using h n BranchName_roundtrip [OF h] by simp
qed

text \<open>
  C8, as the code has it.  ParseBranchKey returns \<^verbatim>\<open>ok = true\<close> only if the string is
  the prefix \<^verbatim>\<open>merge-candidate-\<close> followed by exactly two fields separated by a hyphen,
  each of them a non-empty sequence of decimal digits of strictly positive value,
  possibly with a plus sign in front: \<^verbatim>\<open>strconv.Atoi\<close> accepts a sign.
\<close>

theorem ParseBranchKey_ok_shape:
  assumes "snd (ParseBranchKey s)"
  shows "\<exists>f1 f2. s = ''merge-candidate-'' @ f1 @ ''-'' @ f2 \<and> signedField f1 \<and> signedField f2"
proof -
  let ?p = "MergeCandidateBranchPrefix @ ''-''"
  let ?suffix = "drop (length ?p) s"
  let ?parts = "Split ?suffix CHR ''-''"
  from assms have pre: "HasPrefix s ?p"
    by (auto simp: ParseBranchKey_def Let_def split: if_splits)
  from assms have len: "length ?parts = 2"
    by (auto simp: ParseBranchKey_def Let_def split: if_splits)
  then obtain f1 f2 where parts: "?parts = [f1, f2]"
    by (cases ?parts; cases "tl ?parts") auto
  obtain n1 e1 where a1: "Atoi f1 = (n1, e1)" by (cases "Atoi f1")
  obtain n2 e2 where a2: "Atoi f2 = (n2, e2)" by (cases "Atoi f2")
  from assms pre parts a1 a2 have ok: "e1 = None" "0 < n1" "e2 = None" "0 < n2"
    by (auto simp: ParseBranchKey_def Let_def zeroBranchKey_def split: if_splits)
  have "signedField f1" "signedField f2"
    using a1 a2 ok by (auto intro: Atoi_positive)
  moreover have "?suffix = f1 @ CHR ''-'' # f2"
    using parts by (rule Split_two)
  with HasPrefix_append [OF pre] have "s = ?p @ f1 @ ''-'' @ f2"
    by simp
  moreover have "?p = ''merge-candidate-''"
    by (simp add: MergeCandidateBranchPrefix_def)
  ultimately show ?thesis by metis
qed

theorem ParseBranchKey_ok_shape_witness:
  "snd (ParseBranchKey ''merge-candidate-007-12'')
   \<and> (\<exists>f1 f2. ''merge-candidate-007-12'' = ''merge-candidate-'' @ f1 @ ''-'' @ f2
        \<and> signedField f1 \<and> signedField f2)"
proof -
  have h: "snd (ParseBranchKey ''merge-candidate-007-12'')"
    by (simp add: ParseBranchKey_def MergeCandidateBranchPrefix_def HasPrefix_def Atoi_def
        zeroBranchKey_def is_digit_def digits_val_def digit_val_def maxInt_def minInt_def)
  show ?thesis
    using h ParseBranchKey_ok_shape [OF h] by simp
qed

text \<open>
  C8 as stated fails: a name whose first field carries a plus sign is accepted, and it
  is not of the shape of two fields of decimal digits.
\<close>

theorem ParseBranchKey_plus_sign_accepted:
  "ParseBranchKey ''merge-candidate-+5-1'' = (\<lparr>PipelineCounter = 1, PullRequestNumber = 5\<rparr>, True)
   \<and> \<not> candidateNameShape ''merge-candidate-+5-1''"
  by (simp add: ParseBranchKey_def MergeCandidateBranchPrefix_def HasPrefix_def Atoi_def
      zeroBranchKey_def is_digit_def digits_val_def digit_val_def maxInt_def minInt_def
      candidateNameShape_def decimalField_def)

section \<open>The pipeline tree\<close>

lemma chain_fmupd:
  assumes "chain t bk ks" and "fmlookup t k' = None"
  shows "chain (fmupd k' v t) bk ks"
  using assms
proof (induction rule: chain.induct)
  case (at_base t)
  show ?case by (rule chain.at_base)
next
  case (pred bk t pv ks)
  from pred.hyps(2) pred.prems have "bk \<noteq> k'" by auto
  then have "fmlookup (fmupd k' v t) bk = Some pv"
    using pred.hyps(2) by simp
  with pred.hyps(1) pred.IH [OF pred.prems] show ?case
    by (intro chain.pred)
qed

lemma placed_fmupd:
  "placed os t bk pv \<Longrightarrow> fmlookup t k' = None \<Longrightarrow> placed os (fmupd k' v t) bk pv"
  unfolding placed_def by (blast intro: chain_fmupd)

lemma findParent_found:
  "findParent shas ps = (k, True) \<Longrightarrow> \<exists>p\<in>set ps. fmlookup shas p = Some k"
  by (induction ps) (auto split: option.splits)

lemma findParent_missing:
  "findParent shas ps = (k, False) \<Longrightarrow> (\<forall>p\<in>set ps. fmlookup shas p = None)"
  by (induction ps) (auto split: option.splits)

lemma treeStep_cases:
  obtains (same) "treeStep os bk (t, shas, n) = (t, shas, n)"
  | (added) bv parentKey where
      "fmlookup (Branches os) bk = Some bv" "fmlookup t bk = None"
      "findParent shas (Parents bv) = (parentKey, True)"
      "treeStep os bk (t, shas, n) =
         (fmupd bk \<lparr>Predecessor = parentKey, Weight = Weight (tree_at t parentKey) + 1,
                    IsNotInPipeline = (IsNotInPipeline (tree_at t parentKey) \<or> \<not> isValid bv
                       \<or> (IsCheckDone bv \<and> \<not> IsCheckPass bv))\<rparr> t,
          fmupd (CommitID bv) bk shas, n + 1)"
proof (cases "fmlookup (Branches os) bk")
  case None
  then have "treeStep os bk (t, shas, n) = (t, shas, n)" by (simp add: treeStep_def)
  then show ?thesis by (rule same)
next
  case (Some bv)
  obtain parentKey isInTree where fp: "findParent shas (Parents bv) = (parentKey, isInTree)"
    by (cases "findParent shas (Parents bv)")
  show ?thesis
  proof (cases "fmlookup t bk = None \<and> isInTree")
    case True
    show ?thesis
    proof (rule added [of bv parentKey])
      show "fmlookup (Branches os) bk = Some bv" by (rule Some)
      show "fmlookup t bk = None" using True by simp
      show "findParent shas (Parents bv) = (parentKey, True)" using fp True by simp
      show "treeStep os bk (t, shas, n) =
         (fmupd bk \<lparr>Predecessor = parentKey, Weight = Weight (tree_at t parentKey) + 1,
                    IsNotInPipeline = (IsNotInPipeline (tree_at t parentKey) \<or> \<not> isValid bv
                       \<or> (IsCheckDone bv \<and> \<not> IsCheckPass bv))\<rparr> t,
          fmupd (CommitID bv) bk shas, n + 1)"
        using True by (simp add: treeStep_def Some fp)
    qed
  next
    case False
    then have "treeStep os bk (t, shas, n) = (t, shas, n)"
      by (auto simp: treeStep_def Some fp)
    then show ?thesis by (rule same)
  qed
qed

lemma placed_new:
  assumes z: "zeroBranchKey \<notin> fmdom' (Branches os)"
    and inv: "treeInv os t shas"
    and bv: "fmlookup (Branches os) bk = Some bv"
    and new: "fmlookup t bk = None"
    and par: "findParent shas (Parents bv) = (parentKey, True)"
    and pv: "pv = \<lparr>Predecessor = parentKey, Weight = Weight (tree_at t parentKey) + 1,
                  IsNotInPipeline = (IsNotInPipeline (tree_at t parentKey) \<or> \<not> isValid bv
                       \<or> (IsCheckDone bv \<and> \<not> IsCheckPass bv))\<rparr>"
  shows "placed os (fmupd bk pv t) bk pv"
proof -
  have bknz: "bk \<noteq> zeroBranchKey"
    using z bv by (auto simp: fmlookup_dom'_iff)
  have fails: "branchFails os bk \<longleftrightarrow> \<not> isValid bv \<or> (IsCheckDone bv \<and> \<not> IsCheckPass bv)"
    by (simp add: branchFails_def bv)
  from par obtain p where "fmlookup shas p = Some parentKey"
    by (blast dest: findParent_found)
  with inv have pk: "parentKey = zeroBranchKey \<or> parentKey \<in> fmdom' t"
    by (auto simp: treeInv_def)
  have zt: "fmlookup t zeroBranchKey = None"
    using inv z by (auto simp: treeInv_def fmlookup_dom'_iff)
  show ?thesis
  proof (cases "parentKey = zeroBranchKey")
    case True
    have "chain (fmupd bk pv t) bk [bk]"
      using bknz by (intro chain.pred [where pv = pv]) (auto simp: pv True intro: chain.at_base)
    moreover have "tree_at t parentKey = zeroPipelineValue"
      by (simp add: tree_at_def True zt)
    ultimately show ?thesis
      unfolding placed_def
      by (intro exI [of _ "[bk]"]) (simp add: pv zeroPipelineValue_def fails)
  next
    case False
    with pk obtain ppv where ppv: "fmlookup t parentKey = Some ppv"
      by (auto simp: fmlookup_dom'_iff)
    with inv have "placed os t parentKey ppv"
      by (auto simp: treeInv_def)
    then obtain ks where ks: "chain t parentKey ks" "Weight ppv = int (length ks)"
      "IsNotInPipeline ppv \<longleftrightarrow> (\<exists>k\<in>set ks. branchFails os k)"
      by (auto simp: placed_def)
    have "chain (fmupd bk pv t) parentKey ks"
      using ks(1) new by (rule chain_fmupd)
    then have "chain (fmupd bk pv t) bk (bk # ks)"
      using bknz by (intro chain.pred [where pv = pv]) (auto simp: pv)
    moreover have "tree_at t parentKey = ppv"
      by (simp add: tree_at_def ppv)
    ultimately show ?thesis
      unfolding placed_def
      using ks(2,3) by (intro exI [of _ "bk # ks"]) (auto simp: pv fails)
  qed
qed

lemma treeStep_inv:
  assumes z: "zeroBranchKey \<notin> fmdom' (Branches os)"
    and inv: "treeInv os t shas"
    and st: "treeStep os bk (t, shas, n) = (t', shas', n')"
  shows "treeInv os t' shas'"
proof (cases rule: treeStep_cases [of os bk t shas n])
  case same
  with st inv show ?thesis by simp
next
  case (added bv parentKey)
  let ?pv = "\<lparr>Predecessor = parentKey, Weight = Weight (tree_at t parentKey) + 1,
                    IsNotInPipeline = (IsNotInPipeline (tree_at t parentKey) \<or> \<not> isValid bv
                       \<or> (IsCheckDone bv \<and> \<not> IsCheckPass bv))\<rparr>"
  from added(4) st have t': "t' = fmupd bk ?pv t" and shas': "shas' = fmupd (CommitID bv) bk shas"
    by simp_all
  have new: "placed os t' bk ?pv"
    unfolding t' using z inv added(1,2,3) by (rule placed_new) simp
  have dom: "fmdom' t' \<subseteq> fmdom' (Branches os)"
    using inv added(1) by (auto simp: t' treeInv_def fmlookup_dom'_iff)
  have owners: "\<forall>c k. fmlookup shas' c = Some k \<longrightarrow> k = zeroBranchKey \<or> k \<in> fmdom' t'"
    using inv by (auto simp: t' shas' treeInv_def split: if_splits)
  have old: "placed os t' k pv" if "fmlookup t k = Some pv" for k pv
  proof -
    from inv that have "placed os t k pv" by (auto simp: treeInv_def)
    then show ?thesis unfolding t' using added(2) by (rule placed_fmupd)
  qed
  have "\<forall>k pv. fmlookup t' k = Some pv \<longrightarrow> placed os t' k pv"
  proof (intro allI impI)
    fix k pv assume l: "fmlookup t' k = Some pv"
    show "placed os t' k pv"
    proof (cases "k = bk")
      case True
      with l have "pv = ?pv" by (simp add: t')
      with new True show ?thesis by simp
    next
      case False
      with l have "fmlookup t k = Some pv" by (simp add: t')
      then show ?thesis by (rule old)
    qed
  qed
  with dom owners show ?thesis by (simp add: treeInv_def)
qed

lemma treeFold_inv:
  assumes z: "zeroBranchKey \<notin> fmdom' (Branches os)"
  shows "treeInv os (fst st) (fst (snd st))
     \<Longrightarrow> treeInv os (fst (fold (treeStep os) ks st)) (fst (snd (fold (treeStep os) ks st)))"
proof (induction ks arbitrary: st)
  case Nil
  then show ?case by simp
next
  case (Cons k ks)
  obtain t shas n where st: "st = (t, shas, n)" by (cases st)
  obtain t' shas' n' where st': "treeStep os k st = (t', shas', n')" by (cases "treeStep os k st")
  from Cons.prems have "treeInv os t' shas'"
    using treeStep_inv [OF z _ st' [unfolded st]] by (simp add: st)
  then show ?case
    using Cons.IH [of "(t', shas', n')"] by (simp add: st')
qed

lemma treeLoop_inv:
  "zeroBranchKey \<notin> fmdom' (Branches os) \<Longrightarrow> treeInv os t shas
     \<Longrightarrow> \<exists>shas'. treeInv os (treeLoop os ord i t shas) shas'"
proof (induction os ord i t shas rule: treeLoop.induct)
  case (1 os ord i t shas)
  note z = "1.prems"(1)
  obtain t' shas' n' where p: "treePass os (ord i) t shas = (t', shas', n')"
    by (cases "treePass os (ord i) t shas")
  have "treeInv os (fst (treePass os (ord i) t shas)) (fst (snd (treePass os (ord i) t shas)))"
    unfolding treePass_def by (rule treeFold_inv [OF z]) (simp add: "1.prems")
  then have inv': "treeInv os t' shas'"
    by (simp add: p)
  show ?case
  proof (cases "n' = 0")
    case True
    then show ?thesis
      using inv' p by (subst treeLoop.simps) auto
  next
    case False
    then show ?thesis
      using "1.IH" [OF p [symmetric] refl False z inv'] p
      by (subst treeLoop.simps) simp
  qed
qed

lemma treeInv_init: "treeInv os fmempty (fmupd (Base os) zeroBranchKey fmempty)"
  by (simp add: treeInv_def)

lemma BuildPipelineTree_inv:
  assumes "zeroBranchKey \<notin> fmdom' (Branches os)"
  shows "\<exists>shas. treeInv os (BuildPipelineTree os ord) shas"
  unfolding BuildPipelineTree_def using assms treeInv_init by (rule treeLoop_inv)

lemmas ex_simps =
  BuildPipelineTree_def treeLoop.simps treePass_def treeStep_def exState_def exOrder_def
  key_def branch_def zeroBranchKey_def tree_at_def zeroPipelineValue_def fmlookup_of_list
  fmlookup_dom'_iff

lemma exState_keys: "zeroBranchKey \<notin> fmdom' (Branches exState)"
  by (simp add: ex_simps)

lemma exState_tree:
  "fmlookup (BuildPipelineTree exState exOrder) k =
     (if k = key 1 1 then Some \<lparr>Predecessor = zeroBranchKey, Weight = 1, IsNotInPipeline = False\<rparr>
      else if k = key 2 2 then Some \<lparr>Predecessor = key 1 1, Weight = 2, IsNotInPipeline = True\<rparr>
      else None)"
  by (simp add: ex_simps)

text \<open>
  C2.  The keys of \<^verbatim>\<open>os.Branches\<close> are branch keys, with positive fields, so the zero
  key is not among them.  Then, whatever the orders of the visits, every key of the
  tree has a chain of predecessors that ends at the zero key, its weight is the number of
  branches on the chain, and it is marked as not in the pipeline exactly when some
  branch on the chain is invalid or has failed its checks.
\<close>

theorem BuildPipelineTree_chain:
  assumes "zeroBranchKey \<notin> fmdom' (Branches os)"
    and "fmlookup (BuildPipelineTree os ord) bk = Some pv"
  shows "\<exists>ks. chain (BuildPipelineTree os ord) bk ks \<and> Weight pv = int (length ks)
           \<and> (IsNotInPipeline pv \<longleftrightarrow> (\<exists>k\<in>set ks. branchFails os k))"
  using BuildPipelineTree_inv [OF assms(1), of ord] assms(2)
  by (auto simp: treeInv_def placed_def)

theorem BuildPipelineTree_chain_witness:
  "zeroBranchKey \<notin> fmdom' (Branches exState)
   \<and> fmlookup (BuildPipelineTree exState exOrder) (key 2 2)
       = Some \<lparr>Predecessor = key 1 1, Weight = 2, IsNotInPipeline = True\<rparr>
   \<and> (\<exists>ks. chain (BuildPipelineTree exState exOrder) (key 2 2) ks \<and> 2 = int (length ks)
         \<and> (\<exists>k\<in>set ks. branchFails exState k))"
proof -
  have h: "fmlookup (BuildPipelineTree exState exOrder) (key 2 2)
             = Some \<lparr>Predecessor = key 1 1, Weight = 2, IsNotInPipeline = True\<rparr>"
    by (simp add: exState_tree key_def)
  show ?thesis
    using exState_keys h BuildPipelineTree_chain [OF exState_keys h] by simp
qed

section \<open>The fast-forward\<close>

lemma selectHead_alt:
  "selectHead t k h = (if viable t k \<and> better t k h then k else h)"
  by (auto simp: selectHead_def viable_def better_def tree_at_def split: option.splits)

lemma selected_step:
  assumes "selected t S h0 h"
  shows "selected t (insert k S) h0 (selectHead t k h)"
  using assms unfolding selectHead_alt selected_def better_def
  by (auto; linarith)

lemma selected_fold:
  "selected t S h0 h \<Longrightarrow> selected t (S \<union> set ks) h0 (fold (selectHead t) ks h)"
proof (induction ks arbitrary: S h)
  case Nil
  then show ?case by simp
next
  case (Cons k ks)
  from Cons.prems have "selected t (insert k S) h0 (selectHead t k h)"
    by (rule selected_step)
  from Cons.IH [OF this] show ?case by simp
qed

lemma selected_init: "selected t {} h0 h0"
  by (simp add: selected_def)

lemma selectHead_fold: "selected t (set ks) h0 (fold (selectHead t) ks h0)"
  using selected_fold [OF selected_init] by fastforce

lemma chain_keys: "chain t k ks \<Longrightarrow> set ks \<subseteq> fmdom' t"
  by (induction rule: chain.induct) (auto simp: fmlookup_dom'_iff)

lemma chain_nonempty: "chain t k ks \<Longrightarrow> k \<noteq> zeroBranchKey \<Longrightarrow> ks \<noteq> []"
  by (erule chain.cases) auto

lemma walkBack_chain:
  assumes "chain t h hs" and "fmdom' t \<subseteq> fmdom' (Branches os)"
    and "zeroBranchKey \<notin> fmdom' (Branches os)"
  shows "walkBack os t h = Some (firstPassing os hs)"
  using assms
proof (induction rule: chain.induct)
  case (at_base t)
  then have "fmlookup (Branches os) zeroBranchKey = None"
    by (auto simp: fmlookup_dom'_iff)
  then show ?case
    by (subst walkBack.simps) (simp add: firstPassing_def)
next
  case (pred bk t pv ks)
  from pred.hyps(2) have "bk \<in> fmdom' t" by (rule fmdom'I)
  with pred.prems have "bk \<in> fmdom' (Branches os)" by blast
  then obtain bv where bv: "fmlookup (Branches os) bk = Some bv"
    by (auto simp: fmlookup_dom'_iff)
  have ba: "branch_at os bk = bv" by (simp add: branch_at_def bv)
  have ta: "tree_at t bk = pv" by (simp add: tree_at_def pred.hyps(2))
  show ?case
  proof (cases "IsCheckPass bv")
    case True
    then show ?thesis
      by (subst walkBack.simps) (simp add: bv firstPassing_def ba)
  next
    case False
    have "walkBack os t bk = walkBack os t (Predecessor pv)"
      using False by (subst walkBack.simps) (simp add: bv ta)
    also have "\<dots> = Some (firstPassing os ks)"
      using pred.IH pred.prems by simp
    also have "firstPassing os ks = firstPassing os (bk # ks)"
      using False by (simp add: firstPassing_def ba)
    finally show ?thesis .
  qed
qed

lemma treeInv_placed:
  "treeInv os t shas \<Longrightarrow> fmlookup t k = Some pv \<Longrightarrow> placed os t k pv"
  by (simp add: treeInv_def)

lemma tree_weight_pos:
  assumes "zeroBranchKey \<notin> fmdom' (Branches os)" and "treeInv os t shas"
    and "fmlookup t k = Some pv"
  shows "1 \<le> Weight pv"
proof -
  from assms(3) have "k \<in> fmdom' t" by (rule fmdom'I)
  with assms(1,2) have "k \<noteq> zeroBranchKey"
    by (auto simp: treeInv_def)
  moreover from treeInv_placed [OF assms(2,3)]
  obtain ks where "chain t k ks" "Weight pv = int (length ks)"
    unfolding placed_def by blast
  ultimately show ?thesis
    using chain_nonempty [of t k ks] by (cases ks) auto
qed

lemmas tie_simps =
  BuildPipelineTree_def treeLoop.simps treePass_def treeStep_def tieState_def tieOrder_def
  tieTree_def key_def branch_def zeroBranchKey_def tree_at_def zeroPipelineValue_def
  fmlookup_of_list fmlookup_dom'_iff

lemma tieState_keys: "zeroBranchKey \<notin> fmdom' (Branches tieState)"
  by (simp add: tie_simps)

lemma tieTree_lookup:
  "fmlookup tieTree k =
     (if k = key 1 1 then Some \<lparr>Predecessor = zeroBranchKey, Weight = 1, IsNotInPipeline = False\<rparr>
      else if k = key 2 1
        then Some \<lparr>Predecessor = zeroBranchKey, Weight = 1, IsNotInPipeline = False\<rparr>
      else if k = key 3 2 then Some \<lparr>Predecessor = key 1 1, Weight = 2, IsNotInPipeline = False\<rparr>
      else if k = key 3 3 then Some \<lparr>Predecessor = key 2 1, Weight = 2, IsNotInPipeline = False\<rparr>
      else None)"
  by (simp add: tie_simps)

lemma tieTree_dom: "fmdom' tieTree = {key 1 1, key 2 1, key 3 2, key 3 3}"
  by (auto simp: fmlookup_dom'_iff tieTree_lookup split: if_splits)

lemma tieTree_visits:
  "visits tieTree [key 1 1, key 2 1, key 3 2, key 3 3]"
  "visits tieTree [key 3 3, key 3 2, key 2 1, key 1 1]"
  by (auto simp: visits_def tieTree_dom) (simp_all add: key_def)

text \<open>
  C1.  Let the zero key not be a key of \<^verbatim>\<open>os.Branches\<close>, \<open>t\<close> the tree of \<open>os\<close> and
  \<open>ks\<close> the order in which \<open>t\<close> is visited.  If no entry of \<open>t\<close> is in the pipeline,
  FindFastForward returns \<^verbatim>\<open>nil\<close>.  Otherwise there is an entry \<open>h\<close> of maximum weight
  among the entries in the pipeline, with the smallest pull-request number among those
  of maximum weight, such that FindFastForward returns the head of the first branch with
  passing checks on the chain of predecessors of \<open>h\<close>, and \<^verbatim>\<open>nil\<close> when the chain has
  none.  In both cases the function returns.
\<close>

theorem FindFastForward_longest_chain:
  assumes z: "zeroBranchKey \<notin> fmdom' (Branches os)"
    and t: "t = BuildPipelineTree os ord"
    and ks: "visits t ks"
  shows "if \<forall>k\<in>fmdom' t. \<not> viable t k then FindFastForward os t ks = Some None
         else \<exists>h hs. isPipelineTip t h \<and> chain t h hs
                \<and> FindFastForward os t ks = Some (firstPassing os hs)"
proof -
  from BuildPipelineTree_inv [OF z, of ord] obtain shas where inv: "treeInv os t shas"
    unfolding t by blast
  then have dom: "fmdom' t \<subseteq> fmdom' (Branches os)"
    by (simp add: treeInv_def)
  with z have zt: "fmlookup t zeroBranchKey = None"
    by (auto simp: fmlookup_dom'_iff)
  then have w0: "Weight (tree_at t zeroBranchKey) = 0"
    by (simp add: tree_at_def zeroPipelineValue_def)
  let ?h = "fold (selectHead t) ks zeroBranchKey"
  have sel: "selected t (fmdom' t) zeroBranchKey ?h"
    using selectHead_fold [of t ks zeroBranchKey] ks by (simp add: visits_def)
  show ?thesis
  proof (cases "\<forall>k\<in>fmdom' t. \<not> viable t k")
    case True
    with sel have "?h = zeroBranchKey"
      by (auto simp: selected_def)
    moreover have "walkBack os t zeroBranchKey = Some None"
      using z by (subst walkBack.simps) (auto simp: fmlookup_dom'_iff split: option.splits)
    ultimately show ?thesis
      using True by (simp add: FindFastForward_def)
  next
    case False
    then obtain k0 where k0: "k0 \<in> fmdom' t" "viable t k0" by blast
    then obtain pv0 where pv0: "fmlookup t k0 = Some pv0"
      by (auto simp: fmlookup_dom'_iff)
    have "1 \<le> Weight pv0"
      using z inv pv0 by (rule tree_weight_pos)
    moreover have "tree_at t k0 = pv0"
      by (simp add: tree_at_def pv0)
    ultimately have "better t k0 zeroBranchKey"
      using w0 by (simp add: better_def)
    with sel k0 have h: "?h \<in> fmdom' t" "viable t ?h"
      "\<forall>k\<in>fmdom' t. viable t k \<longrightarrow> \<not> better t k ?h"
      by (auto simp: selected_def)
    have tip: "isPipelineTip t ?h"
      unfolding isPipelineTip_def using h(2,3) by (auto simp: better_def)
    from h(1) obtain pv where pv: "fmlookup t ?h = Some pv"
      by (auto simp: fmlookup_dom'_iff)
    from treeInv_placed [OF inv pv] obtain hs where hs: "chain t ?h hs"
      unfolding placed_def by blast
    have "FindFastForward os t ks = Some (firstPassing os hs)"
      unfolding FindFastForward_def using hs dom z by (rule walkBack_chain)
    with tip hs False show ?thesis by auto
  qed
qed

theorem FindFastForward_longest_chain_witness:
  "zeroBranchKey \<notin> fmdom' (Branches tieState)
   \<and> visits tieTree [key 1 1, key 2 1, key 3 2, key 3 3]
   \<and> (if \<forall>k\<in>fmdom' tieTree. \<not> viable tieTree k
       then FindFastForward tieState tieTree [key 1 1, key 2 1, key 3 2, key 3 3] = Some None
       else \<exists>h hs. isPipelineTip tieTree h \<and> chain tieTree h hs
              \<and> FindFastForward tieState tieTree [key 1 1, key 2 1, key 3 2, key 3 3]
                  = Some (firstPassing tieState hs))"
  by (intro conjI tieState_keys tieTree_visits(1)
      FindFastForward_longest_chain [OF tieState_keys tieTree_def tieTree_visits(1)])

section \<open>Orphans and their pruning\<close>

lemma connected_dom: "k \<in> connected os \<Longrightarrow> k \<in> fmdom' (Branches os)"
  by (erule connected.cases) (auto intro: fmdom'I)

lemma ownerInv_init: "ownerInv os fmempty (fmupd (Base os) zeroBranchKey fmempty)"
  by (simp add: ownerInv_def)

lemma ownerInv_step:
  assumes inv: "ownerInv os t shas"
    and st: "treeStep os bk (t, shas, n) = (t', shas', n')"
  shows "ownerInv os t' shas'"
proof (cases rule: treeStep_cases [of os bk t shas n])
  case same
  with st inv show ?thesis by simp
next
  case (added bv parentKey)
  from added(4) st have t': "fmdom' t' = insert bk (fmdom' t)"
    and shas': "fmdom' shas' = insert (CommitID bv) (fmdom' shas)"
    by auto
  from added(3) obtain p where p: "p \<in> set (Parents bv)" "fmlookup shas p = Some parentKey"
    by (blast dest: findParent_found)
  then have "p \<in> fmdom' shas" by (auto intro: fmdom'I)
  with inv have "p = Base os
      \<or> (\<exists>k kv. k \<in> fmdom' t \<and> fmlookup (Branches os) k = Some kv \<and> p = CommitID kv)"
    by (auto simp: ownerInv_def)
  then have "bk \<in> connected os"
  proof
    assume "p = Base os"
    with added(1) p(1) show ?thesis by (auto intro: connected.root)
  next
    assume "\<exists>k kv. k \<in> fmdom' t \<and> fmlookup (Branches os) k = Some kv \<and> p = CommitID kv"
    then obtain k kv where k: "k \<in> fmdom' t" "fmlookup (Branches os) k = Some kv" "p = CommitID kv"
      by blast
    from k(1) inv have "k \<in> connected os" by (auto simp: ownerInv_def)
    with added(1) k(2,3) p(1) show ?thesis by (auto intro: connected.link)
  qed
  with inv have sub: "fmdom' t' \<subseteq> connected os"
    by (auto simp: t' ownerInv_def)
  have "fmdom' shas'
          = insert (Base os)
              {c. \<exists>k kv. k \<in> fmdom' t' \<and> fmlookup (Branches os) k = Some kv \<and> c = CommitID kv}"
    using inv added(1) unfolding t' shas' ownerInv_def by auto
  with sub show ?thesis by (simp add: ownerInv_def)
qed

lemma ownerInv_fold:
  "ownerInv os (fst st) (fst (snd st))
     \<Longrightarrow> ownerInv os (fst (fold (treeStep os) ks st)) (fst (snd (fold (treeStep os) ks st)))"
proof (induction ks arbitrary: st)
  case Nil
  then show ?case by simp
next
  case (Cons k ks)
  obtain t shas n where st: "st = (t, shas, n)" by (cases st)
  obtain t' shas' n' where st': "treeStep os k st = (t', shas', n')" by (cases "treeStep os k st")
  from Cons.prems have "ownerInv os t' shas'"
    using ownerInv_step [OF _ st' [unfolded st]] by (simp add: st)
  then show ?case
    using Cons.IH [of "(t', shas', n')"] by (simp add: st')
qed

lemma ownerInv_pass:
  assumes "ownerInv os t shas" and "treePass os ks t shas = (t', shas', n')"
  shows "ownerInv os t' shas'"
  using ownerInv_fold [of os "(t, shas, 0)" ks] assms by (simp add: treePass_def)

text \<open>A pass that adds nothing has changed nothing, at any of its steps.\<close>

lemma treeStep_count: "snd (snd st) \<le> snd (snd (treeStep os k st))"
  by (cases st) (auto simp: treeStep_def split: option.splits prod.splits)

lemma treeFold_count: "snd (snd st) \<le> snd (snd (fold (treeStep os) ks st))"
proof (induction ks arbitrary: st)
  case Nil
  show ?case by simp
next
  case (Cons k ks)
  have "snd (snd st) \<le> snd (snd (treeStep os k st))" by (rule treeStep_count)
  also have "\<dots> \<le> snd (snd (fold (treeStep os) ks (treeStep os k st)))" by (rule Cons.IH)
  finally show ?case by simp
qed

lemma treeStep_same: "snd (snd (treeStep os k st)) = snd (snd st) \<Longrightarrow> treeStep os k st = st"
  by (cases st) (auto simp: treeStep_def split: option.splits prod.splits if_splits)

lemma treeFold_same:
  "snd (snd (fold (treeStep os) ks st)) = snd (snd st)
     \<Longrightarrow> fold (treeStep os) ks st = st \<and> (\<forall>k\<in>set ks. treeStep os k st = st)"
proof (induction ks arbitrary: st)
  case Nil
  show ?case by simp
next
  case (Cons k ks)
  have "snd (snd st) \<le> snd (snd (treeStep os k st))" by (rule treeStep_count)
  moreover have "snd (snd (treeStep os k st)) \<le> snd (snd (fold (treeStep os) ks (treeStep os k st)))"
    by (rule treeFold_count)
  ultimately have "snd (snd (treeStep os k st)) = snd (snd st)"
    using Cons.prems by simp
  then have same: "treeStep os k st = st" by (rule treeStep_same)
  with Cons.prems Cons.IH [of st] show ?case by simp
qed

lemma treeStep_closed:
  assumes "treeStep os k (t, shas, n) = (t, shas, n)"
    and "fmlookup (Branches os) k = Some bv" and "p \<in> set (Parents bv)" and "p \<in> fmdom' shas"
  shows "k \<in> fmdom' t"
proof (rule ccontr)
  assume "k \<notin> fmdom' t"
  then have new: "fmlookup t k = None" by auto
  obtain parentKey isInTree where fp: "findParent shas (Parents bv) = (parentKey, isInTree)"
    by (cases "findParent shas (Parents bv)")
  have isInTree
  proof (rule ccontr)
    assume "\<not> isInTree"
    with fp have "\<forall>p\<in>set (Parents bv). fmlookup shas p = None"
      by (auto dest: findParent_missing)
    with assms(3,4) show False by (auto simp: fmlookup_dom'_iff)
  qed
  with assms(1,2) new fp show False
    by (simp add: treeStep_def)
qed

lemma connected_closed:
  assumes inv: "ownerInv os t shas"
    and closed: "\<forall>k\<in>fmdom' (Branches os). treeStep os k (t, shas, n) = (t, shas, n)"
  shows "connected os \<subseteq> fmdom' t"
proof
  fix bk assume "bk \<in> connected os"
  then show "bk \<in> fmdom' t"
  proof (induction rule: connected.induct)
    case (root bk bv)
    have "Base os \<in> fmdom' shas" using inv by (simp add: ownerInv_def)
    moreover have "treeStep os bk (t, shas, n) = (t, shas, n)"
      using closed root(1) by (auto intro: fmdom'I)
    ultimately show ?case using root by (blast intro: treeStep_closed)
  next
    case (link bk bv k kv)
    have "CommitID kv \<in> fmdom' shas"
      using inv link(3,5) by (auto simp: ownerInv_def)
    moreover have "treeStep os bk (t, shas, n) = (t, shas, n)"
      using closed link(1) by (auto intro: fmdom'I)
    ultimately show ?case using link(1,4) by (blast intro: treeStep_closed)
  qed
qed

lemma treeLoop_sound:
  "ownerInv os t shas \<Longrightarrow> fmdom' (treeLoop os ord i t shas) \<subseteq> connected os"
proof (induction os ord i t shas rule: treeLoop.induct)
  case (1 os ord i t shas)
  obtain t' shas' n' where p: "treePass os (ord i) t shas = (t', shas', n')"
    by (cases "treePass os (ord i) t shas")
  have inv': "ownerInv os t' shas'"
    using "1.prems" p by (rule ownerInv_pass)
  show ?case
  proof (cases "n' = 0")
    case True
    then show ?thesis
      using inv' p by (subst treeLoop.simps) (simp add: ownerInv_def)
  next
    case False
    then show ?thesis
      using "1.IH" [OF p [symmetric] refl False inv'] p
      by (subst treeLoop.simps) simp
  qed
qed

lemma treeLoop_complete:
  "ownerInv os t shas \<Longrightarrow> \<forall>i. visits (Branches os) (ord i)
     \<Longrightarrow> connected os \<subseteq> fmdom' (treeLoop os ord i t shas)"
proof (induction os ord i t shas rule: treeLoop.induct)
  case (1 os ord i t shas)
  obtain t' shas' n' where p: "treePass os (ord i) t shas = (t', shas', n')"
    by (cases "treePass os (ord i) t shas")
  have inv': "ownerInv os t' shas'"
    using "1.prems"(1) p by (rule ownerInv_pass)
  show ?case
  proof (cases "n' = 0")
    case True
    with p have "snd (snd (fold (treeStep os) (ord i) (t, shas, 0))) = snd (snd (t, shas, 0 :: nat))"
      by (simp add: treePass_def)
    from treeFold_same [OF this]
    have same: "fold (treeStep os) (ord i) (t, shas, 0) = (t, shas, 0)"
      and steps: "\<forall>k\<in>set (ord i). treeStep os k (t, shas, 0) = (t, shas, 0)"
      by simp_all
    from steps "1.prems"(2) have "\<forall>k\<in>fmdom' (Branches os). treeStep os k (t, shas, 0) = (t, shas, 0)"
      by (simp add: visits_def)
    with "1.prems"(1) have "connected os \<subseteq> fmdom' t"
      by (rule connected_closed)
    moreover have "treeLoop os ord i t shas = t"
      using same by (subst treeLoop.simps) (simp add: treePass_def)
    ultimately show ?thesis by simp
  next
    case False
    then show ?thesis
      using "1.IH" [OF p [symmetric] refl False inv' "1.prems"(2)] p
      by (subst treeLoop.simps) simp
  qed
qed

lemma BuildPipelineTree_sound: "fmdom' (BuildPipelineTree os ord) \<subseteq> connected os"
  unfolding BuildPipelineTree_def using ownerInv_init by (rule treeLoop_sound)

lemma BuildPipelineTree_dom:
  assumes "\<forall>i. visits (Branches os) (ord i)"
  shows "fmdom' (BuildPipelineTree os ord) = connected os"
proof
  show "fmdom' (BuildPipelineTree os ord) \<subseteq> connected os" by (rule BuildPipelineTree_sound)
  show "connected os \<subseteq> fmdom' (BuildPipelineTree os ord)"
    unfolding BuildPipelineTree_def using ownerInv_init assms by (rule treeLoop_complete)
qed

lemma BuildPipelineTree_branches: "fmdom' (BuildPipelineTree os ord) \<subseteq> fmdom' (Branches os)"
  using BuildPipelineTree_sound [of os ord] connected_dom [of _ os] by blast

lemma prune_fold:
  "fold (\<lambda>bk (ns, calls).
             if fmlookup t bk = None
             then (ns\<lparr>Branches := fmdrop bk (Branches ns)\<rparr>, calls @ [DeleteBranch bk])
             else (ns, calls)) ks (ns, calls)
     = (ns\<lparr>Branches := fmdrop_set {k \<in> set ks. fmlookup t k = None} (Branches ns)\<rparr>,
        calls @ map DeleteBranch (filter (\<lambda>k. fmlookup t k = None) ks))"
proof (induction ks arbitrary: ns calls)
  case Nil
  have "fmdrop_set {} (Branches ns) = Branches ns"
    by (intro fmap_ext) simp
  then show ?case by simp
next
  case (Cons k ks)
  show ?case
  proof (cases "fmlookup t k = None")
    case True
    then have "{k' \<in> set (k # ks). fmlookup t k' = None}
                 = insert k {k' \<in> set ks. fmlookup t k' = None}"
      by auto
    moreover have "fmdrop_set A (fmdrop k m) = fmdrop_set (insert k A) m"
      for A and m :: "(BranchKey, BranchValue) fmap"
      by (intro fmap_ext) simp
    ultimately show ?thesis
      using True by (simp add: Cons.IH)
  next
    case False
    then have "{k' \<in> set (k # ks). fmlookup t k' = None} = {k' \<in> set ks. fmlookup t k' = None}"
      by auto
    then show ?thesis
      using False by (auto simp: Cons.IH)
  qed
qed

lemma deepCopy_id: "deepCopy os = os"
  by (simp add: deepCopy_def)

lemma ToPrunedOrphanedBranches_state:
  assumes "visits (Branches os) ks"
  shows "fst (ToPrunedOrphanedBranches os t ks)
           = os\<lparr>Branches := fmfilter (\<lambda>k. k \<in> fmdom' t) (Branches os)\<rparr>"
proof -
  have "fmdrop_set {k \<in> set ks. fmlookup t k = None} (Branches os)
          = fmfilter (\<lambda>k. k \<in> fmdom' t) (Branches os)"
    using assms by (intro fmap_ext) (auto simp: visits_def fmlookup_dom'_iff)
  then show ?thesis
    by (simp add: ToPrunedOrphanedBranches_def prune_fold deepCopy_id)
qed

lemma connected_restrict:
  assumes "os' = os\<lparr>Branches := fmfilter (\<lambda>k. k \<in> connected os) (Branches os)\<rparr>"
  shows "connected os' = connected os"
proof (intro set_eqI iffI)
  fix bk assume "bk \<in> connected os'"
  then show "bk \<in> connected os"
  proof (induction rule: connected.induct)
    case (root bk bv)
    then show ?case
      by (auto simp: assms split: if_splits)
  next
    case (link bk bv k kv)
    then show ?case
      by (auto simp: assms split: if_splits)
  qed
next
  fix bk assume "bk \<in> connected os"
  then show "bk \<in> connected os'"
  proof (induction rule: connected.induct)
    case (root bk bv)
    then have "bk \<in> connected os" by (rule connected.root)
    with root have "fmlookup (Branches os') bk = Some bv" "Base os' \<in> set (Parents bv)"
      by (simp_all add: assms)
    then show ?case by (rule connected.root)
  next
    case (link bk bv k kv)
    from link(1,2,3,4) have "bk \<in> connected os" by (rule connected.link)
    with link have "fmlookup (Branches os') bk = Some bv" "fmlookup (Branches os') k = Some kv"
      by (simp_all add: assms)
    with link(5,4) show ?case by (auto intro: connected.link)
  qed
qed

text \<open>The tree grows.\<close>

lemma treeStep_grows: "fmdom' (fst st) \<subseteq> fmdom' (fst (treeStep os k st))"
  by (cases st) (auto simp: treeStep_def split: option.splits prod.splits)

lemma treeFold_grows: "fmdom' (fst st) \<subseteq> fmdom' (fst (fold (treeStep os) ks st))"
proof (induction ks arbitrary: st)
  case Nil
  show ?case by simp
next
  case (Cons k ks)
  have "fmdom' (fst st) \<subseteq> fmdom' (fst (treeStep os k st))" by (rule treeStep_grows)
  also have "\<dots> \<subseteq> fmdom' (fst (fold (treeStep os) ks (treeStep os k st)))" by (rule Cons.IH)
  finally show ?case by simp
qed

lemma treeLoop_grows: "fmdom' t \<subseteq> fmdom' (treeLoop os ord i t shas)"
proof (induction os ord i t shas rule: treeLoop.induct)
  case (1 os ord i t shas)
  obtain t' shas' n' where p: "treePass os (ord i) t shas = (t', shas', n')"
    by (cases "treePass os (ord i) t shas")
  have g: "fmdom' t \<subseteq> fmdom' t'"
    using treeFold_grows [of "(t, shas, 0)" os "ord i"] p by (simp add: treePass_def)
  show ?case
  proof (cases "n' = 0")
    case True
    then show ?thesis using g p by (subst treeLoop.simps) simp
  next
    case False
    then show ?thesis
      using "1.IH" [OF p [symmetric] refl False] p g
      by (subst treeLoop.simps) auto
  qed
qed

text \<open>Branches that never enter the tree can be left out of the passes.\<close>

lemma treeStep_restrict:
  assumes "Branches os' = fmfilter (\<lambda>k. k \<in> D) (Branches os)" and "k \<in> D"
  shows "treeStep os' k st = treeStep os k st"
  using assms by (simp add: treeStep_def)

lemma treeStep_skip:
  assumes "fmdom' (fst (treeStep os k st)) \<subseteq> D" and "k \<notin> D"
  shows "treeStep os k st = st"
proof (cases st)
  case (fields t shas n)
  show ?thesis
  proof (cases rule: treeStep_cases [of os k t shas n])
    case same
    then show ?thesis by (simp add: fields)
  next
    case (added bv parentKey)
    then have "k \<in> fmdom' (fst (treeStep os k st))" by (simp add: fields)
    with assms show ?thesis by blast
  qed
qed

lemma treeFold_restrict:
  assumes r: "Branches os' = fmfilter (\<lambda>k. k \<in> D) (Branches os)"
  shows "fmdom' (fst (fold (treeStep os) ks st)) \<subseteq> D
     \<Longrightarrow> fold (treeStep os') (filter (\<lambda>k. k \<in> D) ks) st = fold (treeStep os) ks st"
proof (induction ks arbitrary: st)
  case Nil
  show ?case by simp
next
  case (Cons k ks)
  from Cons.prems have sub: "fmdom' (fst (fold (treeStep os) ks (treeStep os k st))) \<subseteq> D"
    by simp
  show ?case
  proof (cases "k \<in> D")
    case True
    with Cons.IH [OF sub] show ?thesis
      by (simp add: treeStep_restrict [OF r])
  next
    case False
    have "fmdom' (fst (treeStep os k st)) \<subseteq> D"
      using treeFold_grows [of "treeStep os k st" os ks] sub by blast
    then have "treeStep os k st = st" using False by (rule treeStep_skip)
    with Cons.IH [OF sub] False show ?thesis by simp
  qed
qed

lemma treeLoop_restrict:
  "Branches os' = fmfilter (\<lambda>k. k \<in> D) (Branches os)
     \<Longrightarrow> fmdom' (treeLoop os ord i t shas) \<subseteq> D
     \<Longrightarrow> treeLoop os' (\<lambda>j. filter (\<lambda>k. k \<in> D) (ord j)) i t shas = treeLoop os ord i t shas"
proof (induction os ord i t shas rule: treeLoop.induct)
  case (1 os ord i t shas)
  note r = "1.prems"(1)
  obtain t' shas' n' where p: "treePass os (ord i) t shas = (t', shas', n')"
    by (cases "treePass os (ord i) t shas")
  have loop: "treeLoop os ord i t shas = (if n' = 0 then t' else treeLoop os ord (Suc i) t' shas')"
    by (subst treeLoop.simps) (simp add: p)
  have "fmdom' t' \<subseteq> D"
    using "1.prems"(2) treeLoop_grows [of t' os ord "Suc i" shas'] unfolding loop
    by (auto split: if_splits)
  then have "fmdom' (fst (fold (treeStep os) (ord i) (t, shas, 0))) \<subseteq> D"
    using p by (simp add: treePass_def)
  from treeFold_restrict [OF r this]
  have p': "treePass os' (filter (\<lambda>k. k \<in> D) (ord i)) t shas = (t', shas', n')"
    using p by (simp add: treePass_def)
  have loop': "treeLoop os' (\<lambda>j. filter (\<lambda>k. k \<in> D) (ord j)) i t shas
      = (if n' = 0 then t' else treeLoop os' (\<lambda>j. filter (\<lambda>k. k \<in> D) (ord j)) (Suc i) t' shas')"
    by (subst treeLoop.simps) (simp add: p')
  show ?case
  proof (cases "n' = 0")
    case True
    then show ?thesis by (simp add: loop loop')
  next
    case False
    with "1.prems"(2) have "fmdom' (treeLoop os ord (Suc i) t' shas') \<subseteq> D"
      by (simp add: loop)
    from "1.IH" [OF p [symmetric] refl False r this] False show ?thesis
      by (simp add: loop loop')
  qed
qed

text \<open>
  C6, as the code has it.  Let every pass of BuildPipelineTree visit all the branches, and
  \<open>t\<close> be the tree of \<open>os\<close>.  ToPrunedOrphanedBranches removes from the branch map
  exactly the keys that are not in \<open>t\<close>, and changes nothing else.  The tree rebuilt from
  the pruned state has the keys of \<open>t\<close>, whatever the orders of the visits; it is \<open>t\<close>
  itself when every pass visits the remaining branches in the order in which it visited
  them before.  Pruning again, with the rebuilt tree, returns the pruned state.
\<close>

theorem prune_orphans_stable:
  assumes ord: "\<forall>i. visits (Branches os) (ord i)"
    and t: "t = BuildPipelineTree os ord"
    and ks: "visits (Branches os) ks"
    and os': "os' = fst (ToPrunedOrphanedBranches os t ks)"
    and ord': "\<forall>i. visits (Branches os') (ord' i)"
    and ks': "visits (Branches os') ks'"
  shows "os' = os\<lparr>Branches := fmfilter (\<lambda>k. k \<in> fmdom' t) (Branches os)\<rparr>
    \<and> fmdom' (BuildPipelineTree os' ord') = fmdom' t
    \<and> BuildPipelineTree os' (\<lambda>i. filter (\<lambda>k. k \<in> fmdom' t) (ord i)) = t
    \<and> fst (ToPrunedOrphanedBranches os' (BuildPipelineTree os' ord') ks') = os'"
proof -
  have dom: "fmdom' t = connected os"
    unfolding t using ord by (rule BuildPipelineTree_dom)
  have s: "os' = os\<lparr>Branches := fmfilter (\<lambda>k. k \<in> fmdom' t) (Branches os)\<rparr>"
    unfolding os' using ks by (rule ToPrunedOrphanedBranches_state)
  then have s': "os' = os\<lparr>Branches := fmfilter (\<lambda>k. k \<in> connected os) (Branches os)\<rparr>"
    by (simp add: dom)
  have dom': "fmdom' (BuildPipelineTree os' ord') = fmdom' t"
    using BuildPipelineTree_dom [OF ord'] connected_restrict [OF s'] dom by simp
  have br: "Branches os' = fmfilter (\<lambda>k. k \<in> fmdom' t) (Branches os)" "Base os' = Base os"
    by (simp_all add: s)
  have same: "BuildPipelineTree os' (\<lambda>i. filter (\<lambda>k. k \<in> fmdom' t) (ord i)) = t"
    unfolding BuildPipelineTree_def br(2)
    using treeLoop_restrict [OF br(1), of ord 0 fmempty "fmupd (Base os) zeroBranchKey fmempty"]
    by (simp add: t BuildPipelineTree_def)
  have "fmfilter (\<lambda>k. k \<in> fmdom' (BuildPipelineTree os' ord')) (Branches os') = Branches os'"
    unfolding dom' by (intro fmap_ext) (simp add: br)
  then have again: "fst (ToPrunedOrphanedBranches os' (BuildPipelineTree os' ord') ks') = os'"
    using ToPrunedOrphanedBranches_state [OF ks', of "BuildPipelineTree os' ord'"] by simp
  from s dom' same again show ?thesis by blast
qed

lemma exState_dom: "fmdom' (Branches exState) = {key 1 1, key 2 2, key 3 1}"
  by (auto simp: exState_def fmlookup_dom'_iff fmlookup_of_list split: if_splits)

lemma exState_visits:
  "visits (Branches exState) (exOrder i)" "visits (Branches exState) [key 1 1, key 2 2, key 3 1]"
  by (auto simp: visits_def exState_dom exOrder_def) (simp_all add: key_def)

lemma exTree_dom: "fmdom' exTree = {key 1 1, key 2 2}"
  by (auto simp: exTree_def fmlookup_dom'_iff exState_tree split: if_splits)

lemma exPruned_dom: "fmdom' (Branches exPruned) = {key 1 1, key 2 2}"
  unfolding exPruned_def ToPrunedOrphanedBranches_state [OF exState_visits(2)]
  by (auto simp: exTree_dom exState_dom) 

lemma exPruned_visits:
  "visits (Branches exPruned) (exOrder' i)" "visits (Branches exPruned) [key 1 1, key 2 2]"
  by (auto simp: visits_def exPruned_dom exOrder'_def) (simp_all add: key_def)

theorem prune_orphans_stable_witness:
  "(\<forall>i. visits (Branches exState) (exOrder i))
   \<and> visits (Branches exState) [key 1 1, key 2 2, key 3 1]
   \<and> (\<forall>i. visits (Branches exPruned) (exOrder' i))
   \<and> visits (Branches exPruned) [key 1 1, key 2 2]
   \<and> fmdom' (Branches exPruned) = {key 1 1, key 2 2}
   \<and> fmdom' (BuildPipelineTree exPruned exOrder') = {key 1 1, key 2 2}
   \<and> fst (ToPrunedOrphanedBranches exPruned (BuildPipelineTree exPruned exOrder')
             [key 1 1, key 2 2]) = exPruned"
proof -
  have h1: "\<forall>i. visits (Branches exState) (exOrder i)" by (simp add: exState_visits)
  have h2: "\<forall>i. visits (Branches exPruned) (exOrder' i)" by (simp add: exPruned_visits)
  show ?thesis
    using prune_orphans_stable [OF h1 exTree_def exState_visits(2) exPruned_def h2 exPruned_visits(2)]
      h1 h2 exState_visits(2) exPruned_visits(2) exPruned_dom exTree_dom
    by simp
qed

lemmas conflict_simps =
  BuildPipelineTree_def treeLoop.simps treePass_def treeStep_def conflictState_def
  conflictOrder_def conflictOrder'_def key_def branch_def zeroBranchKey_def tree_at_def
  zeroPipelineValue_def fmlookup_of_list fmlookup_dom'_iff

lemma conflict_visits:
  "visits (Branches conflictState) (conflictOrder i)"
  "visits (Branches conflictState) (conflictOrder' i)"
  by (auto simp: visits_def conflictState_def conflictOrder_def conflictOrder'_def
      fmlookup_dom'_iff fmlookup_of_list key_def split: if_splits)

lemma conflictTree_lookup:
  "fmlookup conflictTree k =
     (if k = key 1 1 then Some \<lparr>Predecessor = zeroBranchKey, Weight = 1, IsNotInPipeline = False\<rparr>
      else if k = key 4 2
        then Some \<lparr>Predecessor = zeroBranchKey, Weight = 1, IsNotInPipeline = True\<rparr>
      else if k = key 2 2 then Some \<lparr>Predecessor = key 4 2, Weight = 2, IsNotInPipeline = True\<rparr>
      else None)"
  by (simp add: conflictTree_def conflict_simps)

lemma conflictPruned_same: "conflictPruned = conflictState"
  by (simp add: conflictPruned_def ToPrunedOrphanedBranches_def conflictTree_lookup deepCopy_id)

text \<open>
  C6 as stated fails: the rebuilt tree need not be the tree the state was pruned with.
  Here two branches have the same head; which of them owns the commit, and so which of
  them is the predecessor of the branch on top, depends on the order of the visit.
\<close>

theorem rebuilt_tree_differs:
  "visits (Branches conflictState) (conflictOrder 0)
   \<and> visits (Branches conflictPruned) (conflictOrder' 0)
   \<and> fmlookup conflictTree (key 2 2)
       = Some \<lparr>Predecessor = key 4 2, Weight = 2, IsNotInPipeline = True\<rparr>
   \<and> fmlookup (BuildPipelineTree conflictPruned conflictOrder') (key 2 2)
       = Some \<lparr>Predecessor = key 1 1, Weight = 2, IsNotInPipeline = False\<rparr>
   \<and> BuildPipelineTree conflictPruned conflictOrder' \<noteq> conflictTree"
proof -
  have l: "fmlookup conflictTree (key 2 2)
      = Some \<lparr>Predecessor = key 4 2, Weight = 2, IsNotInPipeline = True\<rparr>"
    by (simp add: conflictTree_lookup key_def)
  have l': "fmlookup (BuildPipelineTree conflictPruned conflictOrder') (key 2 2)
      = Some \<lparr>Predecessor = key 1 1, Weight = 2, IsNotInPipeline = False\<rparr>"
    unfolding conflictPruned_same by (simp add: conflict_simps)
  have "BuildPipelineTree conflictPruned conflictOrder' \<noteq> conflictTree"
  proof
    assume "BuildPipelineTree conflictPruned conflictOrder' = conflictTree"
    with l l' show False by simp
  qed
  with l l' conflict_visits show ?thesis
    by (simp add: conflictPruned_same)
qed

section \<open>The choice of the fast-forward and of the next pull request\<close>

lemma not_better_iff:
  "\<not> better t k h \<longleftrightarrow>
     Weight (tree_at t k) < Weight (tree_at t h)
     \<or> (Weight (tree_at t k) = Weight (tree_at t h)
         \<and> PullRequestNumber h \<le> PullRequestNumber k)"
  unfolding better_def by linarith

lemma selected_tip:
  "h \<in> fmdom' t \<Longrightarrow> viable t h \<Longrightarrow> \<forall>k\<in>fmdom' t. viable t k \<longrightarrow> \<not> better t k h
     \<Longrightarrow> isPipelineTip t h"
  unfolding isPipelineTip_def not_better_iff by simp

lemma selected_unique:
  assumes "selected t (fmdom' t) h0 h" and "selected t (fmdom' t) h0 h'" and "tieFree t"
  shows "h = h'"
proof -
  consider (a) "h = h0" "h' = h0"
    | (b) "h = h0" "\<forall>k\<in>fmdom' t. viable t k \<longrightarrow> \<not> better t k h0"
          "h' \<in> fmdom' t" "viable t h'" "better t h' h0"
    | (c) "h' = h0" "\<forall>k\<in>fmdom' t. viable t k \<longrightarrow> \<not> better t k h0"
          "h \<in> fmdom' t" "viable t h" "better t h h0"
    | (d) "h \<in> fmdom' t" "viable t h" "\<forall>k\<in>fmdom' t. viable t k \<longrightarrow> \<not> better t k h"
          "h' \<in> fmdom' t" "viable t h'" "\<forall>k\<in>fmdom' t. viable t k \<longrightarrow> \<not> better t k h'"
    using assms(1,2) unfolding selected_def by blast
  then show ?thesis
  proof cases
    case a
    then show ?thesis by simp
  next
    case b
    then show ?thesis by blast
  next
    case c
    then show ?thesis by blast
  next
    case d
    have "isPipelineTip t h" using d(1,2,3) by (rule selected_tip)
    moreover have "isPipelineTip t h'" using d(4,5,6) by (rule selected_tip)
    ultimately show ?thesis
      using d(1,4) assms(3) unfolding tieFree_def by blast
  qed
qed

lemma FindFastForward_order:
  assumes "visits t ks" and "visits t ks'" and "tieFree t"
  shows "FindFastForward os t ks = FindFastForward os t ks'"
proof -
  have "selected t (fmdom' t) zeroBranchKey (fold (selectHead t) ks zeroBranchKey)"
    "selected t (fmdom' t) zeroBranchKey (fold (selectHead t) ks' zeroBranchKey)"
    using selectHead_fold [of t ks zeroBranchKey] selectHead_fold [of t ks' zeroBranchKey] assms(1,2)
    by (simp_all add: visits_def)
  then have "fold (selectHead t) ks zeroBranchKey = fold (selectHead t) ks' zeroBranchKey"
    using assms(3) by (rule selected_unique)
  then show ?thesis by (simp add: FindFastForward_def)
qed

lemma fold_insert_numbers:
  "fold (\<lambda>bk S. insert (PullRequestNumber bk) S) ks S0 = S0 \<union> PullRequestNumber ` set ks"
  by (induction ks arbitrary: S0) auto

lemma fold_next_Min:
  fixes B :: "int set"
  assumes "0 \<notin> set ns - B"
  shows "fold (\<lambda>number nextNumber.
                 if number \<in> B then nextNumber
                 else if nextNumber = 0 \<or> nextNumber > number then number
                 else nextNumber) ns 0
         = (if set ns - B = {} then 0 else Min (set ns - B))"
  using assms
proof (induction ns rule: rev_induct)
  case Nil
  show ?case by simp
next
  case (snoc n ns)
  let ?A = "set ns - B"
  have fin: "finite ?A" by simp
  from snoc.prems have z: "0 \<notin> ?A" by auto
  note IH = snoc.IH [OF z]
  show ?case
  proof (cases "n \<in> B")
    case True
    then have "set (ns @ [n]) - B = ?A" by auto
    with True IH show ?thesis by simp
  next
    case False
    then have eq: "set (ns @ [n]) - B = insert n ?A" by auto
    from False snoc.prems have n0: "n \<noteq> 0" by auto
    show ?thesis
    proof (cases "?A = {}")
      case True
      with False IH eq show ?thesis by simp
    next
      case ne: False
      let ?g = "\<lambda>number nextNumber.
                 if number \<in> B then nextNumber
                 else if nextNumber = 0 \<or> nextNumber > number then number
                 else nextNumber"
      define m where "m = Min ?A"
      have "m \<in> ?A" unfolding m_def using fin ne by (rule Min_in)
      with z have m0: "m \<noteq> 0" by metis
      have "fold ?g ns 0 = m"
        using IH ne by (simp add: m_def)
      then have "fold ?g (ns @ [n]) 0 = (if m > n then n else m)"
        using False m0 by simp
      also have "\<dots> = min n m"
        by (simp add: min_def)
      also have "\<dots> = Min (insert n ?A)"
        unfolding m_def using fin ne by (rule Min_insert [symmetric])
      finally show ?thesis
        unfolding eq by simp
    qed
  qed
qed

lemma NextMergeablePullRequest_Min:
  assumes "0 \<notin> fmdom' (MergeablePullRequests os)"
    and "visits (Branches os) ks" and "visits (MergeablePullRequests os) ns"
  shows "NextMergeablePullRequest os ks ns
           = (if schedulable os = {} then 0 else Min (schedulable os))"
proof -
  let ?B = "PullRequestNumber ` fmdom' (Branches os)"
  have s: "set ns - ?B = schedulable os"
    using assms(3) by (auto simp: schedulable_def visits_def)
  have "0 \<notin> set ns - ?B"
    using assms(1,3) by (auto simp: visits_def)
  from fold_next_Min [OF this] show ?thesis
    using assms(2) unfolding s by (simp add: NextMergeablePullRequest_def fold_insert_numbers visits_def)
qed

lemma createStep_fold:
  "fold (createStep os t h) ks (bk, calls)
     = (bk\<lparr>PipelineCounter := PipelineCounter bk + int (length (filter (viable t) ks))\<rparr>,
        calls @ tipCalls os (PullRequestNumber bk) h (PipelineCounter bk + 1) (filter (viable t) ks))"
proof (induction ks arbitrary: bk calls)
  case Nil
  show ?case by simp
next
  case (Cons k ks)
  show ?case
  proof (cases "viable t k")
    case True
    then obtain pv where "fmlookup t k = Some pv" "\<not> IsNotInPipeline pv"
      by (auto simp: viable_def split: option.splits)
    then have "createStep os t h k (bk, calls)
        = (bk\<lparr>PipelineCounter := PipelineCounter bk + 1\<rparr>,
           calls @ [CreateBranch (bk\<lparr>PipelineCounter := PipelineCounter bk + 1\<rparr>)
                      (CommitID (branch_at os k)),
                    MergeBranch (bk\<lparr>PipelineCounter := PipelineCounter bk + 1\<rparr>) h])"
      by (simp add: createStep_def Let_def)
    moreover have "bk\<lparr>PipelineCounter := PipelineCounter bk + 1\<rparr>
        = key (PullRequestNumber bk) (PipelineCounter bk + 1)"
      by (simp add: key_def)
    ultimately show ?thesis
      using True by (simp add: Cons.IH key_def add.commute add.left_commute)
  next
    case False
    then have "createStep os t h k (bk, calls) = (bk, calls)"
      by (auto simp: createStep_def viable_def split: option.splits)
    with False show ?thesis by (simp add: Cons.IH)
  qed
qed

lemma CreateBranchesForPullRequest_calls:
  assumes "fmlookup (MergeablePullRequests os) number = Some h"
  shows "CreateBranchesForPullRequest os t number ks
           = scheduleCalls os number h (filter (viable t) ks)"
  using assms
  by (simp add: CreateBranchesForPullRequest_def createStep_fold scheduleCalls_def key_def Let_def)

lemma tips_of_visits:
  "visits t ks \<Longrightarrow> distinct (filter (viable t) ks)
     \<and> set (filter (viable t) ks) = {k \<in> fmdom' t. viable t k}"
  by (auto simp: visits_def)

lemma finite_schedulable: "finite (schedulable os)"
  by (rule finite_subset [of _ "fmdom' (MergeablePullRequests os)"])
     (auto simp: schedulable_def fmdom'_alt_def)

lemma exTree_tieFree: "tieFree exTree"
  by (auto simp: tieFree_def isPipelineTip_def exTree_dom viable_def exTree_def exState_tree
      key_def)

lemma exTree_visits: "visits exTree [key 1 1, key 2 2]" "visits exTree [key 2 2, key 1 1]"
  by (auto simp: visits_def exTree_dom) (simp_all add: key_def)

lemma exState_mergeable:
  "visits (MergeablePullRequests exState) [4, 7, 1]"
  "visits (MergeablePullRequests exState) [1, 7, 4]"
  "0 \<notin> fmdom' (MergeablePullRequests exState)"
  by (auto simp: visits_def exState_def fmlookup_dom'_iff fmlookup_of_list split: if_splits)

lemma exState_visits': "visits (Branches exState) [key 3 1, key 2 2, key 1 1]"
  by (auto simp: visits_def exState_dom) (simp_all add: key_def)

text \<open>
  C3, as the code has it.  FindFastForward returns the same result for any two orders of
  the visit of the tree, provided that at most one entry is of maximum weight among those
  in the pipeline and, among those of maximum weight, of smallest pull-request number.
  NextMergeablePullRequest returns the same result for any orders of the visits of the
  two maps, provided that 0 is not a key of \<^verbatim>\<open>MergeablePullRequests\<close>.
\<close>

theorem selection_order_independent:
  assumes "visits t ks" and "visits t ks'" and "tieFree t"
    and "visits (Branches os) bs" and "visits (Branches os) bs'"
    and "visits (MergeablePullRequests os) ms" and "visits (MergeablePullRequests os) ms'"
    and "0 \<notin> fmdom' (MergeablePullRequests os)"
  shows "FindFastForward os t ks = FindFastForward os t ks'
    \<and> NextMergeablePullRequest os bs ms = NextMergeablePullRequest os bs' ms'"
proof
  show "FindFastForward os t ks = FindFastForward os t ks'"
    using assms(1,2,3) by (rule FindFastForward_order)
  show "NextMergeablePullRequest os bs ms = NextMergeablePullRequest os bs' ms'"
    using NextMergeablePullRequest_Min [OF assms(8,4,6)]
      NextMergeablePullRequest_Min [OF assms(8,5,7)]
    by simp
qed

theorem selection_order_independent_witness:
  "visits exTree [key 1 1, key 2 2] \<and> visits exTree [key 2 2, key 1 1] \<and> tieFree exTree
   \<and> visits (Branches exState) [key 1 1, key 2 2, key 3 1]
   \<and> visits (Branches exState) [key 3 1, key 2 2, key 1 1]
   \<and> visits (MergeablePullRequests exState) [4, 7, 1]
   \<and> visits (MergeablePullRequests exState) [1, 7, 4]
   \<and> 0 \<notin> fmdom' (MergeablePullRequests exState)
   \<and> FindFastForward exState exTree [key 1 1, key 2 2]
       = FindFastForward exState exTree [key 2 2, key 1 1]
   \<and> NextMergeablePullRequest exState [key 1 1, key 2 2, key 3 1] [4, 7, 1]
       = NextMergeablePullRequest exState [key 3 1, key 2 2, key 1 1] [1, 7, 4]"
  using selection_order_independent [OF exTree_visits exTree_tieFree exState_visits(2)
      exState_visits' exState_mergeable]
    exTree_visits exTree_tieFree exState_visits(2) exState_visits' exState_mergeable
  by simp

text \<open>
  C3 as stated fails: with two entries of the same weight for the same pull request,
  both in the pipeline and both with passing checks, the result of FindFastForward is
  the head of the one that is visited first.
\<close>

theorem FindFastForward_depends_on_order:
  "visits tieTree [key 1 1, key 2 1, key 3 2, key 3 3]
   \<and> visits tieTree [key 3 3, key 3 2, key 2 1, key 1 1]
   \<and> FindFastForward tieState tieTree [key 1 1, key 2 1, key 3 2, key 3 3] = Some (Some ''x'')
   \<and> FindFastForward tieState tieTree [key 3 3, key 3 2, key 2 1, key 1 1] = Some (Some ''y'')
   \<and> FindFastForward tieState tieTree [key 1 1, key 2 1, key 3 2, key 3 3]
       \<noteq> FindFastForward tieState tieTree [key 3 3, key 3 2, key 2 1, key 1 1]"
proof -
  have "fold (selectHead tieTree) [key 1 1, key 2 1, key 3 2, key 3 3] zeroBranchKey = key 3 2"
    by (simp add: selectHead_def tieTree_lookup tree_at_def key_def zeroBranchKey_def
        zeroPipelineValue_def)
  moreover have "walkBack tieState tieTree (key 3 2) = Some (Some ''x'')"
    by (subst walkBack.simps) (simp add: tieState_def fmlookup_of_list key_def branch_def)
  moreover
  have "fold (selectHead tieTree) [key 3 3, key 3 2, key 2 1, key 1 1] zeroBranchKey = key 3 3"
    by (simp add: selectHead_def tieTree_lookup tree_at_def key_def zeroBranchKey_def
        zeroPipelineValue_def)
  moreover have "walkBack tieState tieTree (key 3 3) = Some (Some ''y'')"
    by (subst walkBack.simps) (simp add: tieState_def fmlookup_of_list key_def branch_def)
  ultimately show ?thesis
    using tieTree_visits by (simp add: FindFastForward_def)
qed

text \<open>
  C5.  Let 0 not be a key of \<^verbatim>\<open>MergeablePullRequests\<close>, and \<open>t\<close> be the tree of the
  state.  NextMergeablePullRequest returns the smallest mergeable number that has no
  candidate branch, and 0 if there is none.  For the number \<open>n\<close> it returns, when not 0,
  with the recorded head \<open>h\<close>, CreateBranchesForPullRequest creates the branch \<open>(n, 1)\<close>
  at the base and merges \<open>h\<close> into it, and then, for each entry of the tree that is in the
  pipeline, once each and in the order of the visit, creates a branch with the counters
  2, 3 and so on at the head of that entry, and merges \<open>h\<close> into it.
\<close>

theorem scheduler_cycle:
  assumes "0 \<notin> fmdom' (MergeablePullRequests os)"
    and "visits (Branches os) bs" and "visits (MergeablePullRequests os) ms"
    and "t = BuildPipelineTree os ord" and "visits t ks"
    and "n = NextMergeablePullRequest os bs ms"
  shows "n = (if schedulable os = {} then 0 else Min (schedulable os))
    \<and> (n \<noteq> 0 \<longrightarrow>
         (\<exists>h tips. fmlookup (MergeablePullRequests os) n = Some h
            \<and> distinct tips \<and> set tips = {k \<in> fmdom' t. viable t k}
            \<and> set tips \<subseteq> fmdom' (Branches os)
            \<and> CreateBranchesForPullRequest os t n ks = scheduleCalls os n h tips))"
proof
  show n: "n = (if schedulable os = {} then 0 else Min (schedulable os))"
    unfolding assms(6) using assms(1,2,3) by (rule NextMergeablePullRequest_Min)
  show "n \<noteq> 0 \<longrightarrow>
         (\<exists>h tips. fmlookup (MergeablePullRequests os) n = Some h
            \<and> distinct tips \<and> set tips = {k \<in> fmdom' t. viable t k}
            \<and> set tips \<subseteq> fmdom' (Branches os)
            \<and> CreateBranchesForPullRequest os t n ks = scheduleCalls os n h tips)"
  proof
    assume "n \<noteq> 0"
    with n have ne: "schedulable os \<noteq> {}" and "n = Min (schedulable os)"
      by (auto split: if_splits)
    then have "n \<in> schedulable os"
      using Min_in [OF finite_schedulable ne] by simp
    then obtain h where h: "fmlookup (MergeablePullRequests os) n = Some h"
      by (auto simp: schedulable_def fmlookup_dom'_iff)
    let ?tips = "filter (viable t) ks"
    have "distinct ?tips" "set ?tips = {k \<in> fmdom' t. viable t k}"
      using tips_of_visits [OF assms(5)] by simp_all
    moreover have "set ?tips \<subseteq> fmdom' (Branches os)"
      using assms(5) BuildPipelineTree_branches [of os ord]
      by (auto simp: visits_def assms(4))
    moreover have "CreateBranchesForPullRequest os t n ks = scheduleCalls os n h ?tips"
      using h by (rule CreateBranchesForPullRequest_calls)
    ultimately show "\<exists>h tips. fmlookup (MergeablePullRequests os) n = Some h
            \<and> distinct tips \<and> set tips = {k \<in> fmdom' t. viable t k}
            \<and> set tips \<subseteq> fmdom' (Branches os)
            \<and> CreateBranchesForPullRequest os t n ks = scheduleCalls os n h tips"
      using h by blast
  qed
qed

lemma exState_next: "NextMergeablePullRequest exState [key 1 1, key 2 2, key 3 1] [4, 7, 1] = 4"
  by (simp add: NextMergeablePullRequest_def key_def)

lemma exState_fields:
  "Base exState = ''main''"
  "fmlookup (MergeablePullRequests exState) 4 = Some ''pr-4''"
  "CommitID (branch_at exState (key 1 1)) = ''a''"
  by (simp_all add: exState_def branch_at_def fmlookup_of_list key_def branch_def)

lemma exState_create:
  "CreateBranchesForPullRequest exState exTree 4 [key 1 1, key 2 2]
     = [CreateBranch (key 4 1) ''main'', MergeBranch (key 4 1) ''pr-4'',
        CreateBranch (key 4 2) ''a'', MergeBranch (key 4 2) ''pr-4'']"
  using exState_fields(3)
  by (simp add: CreateBranchesForPullRequest_def createStep_def exTree_def exState_tree
      exState_fields(1,2) Let_def key_def)

theorem scheduler_cycle_witness:
  "0 \<notin> fmdom' (MergeablePullRequests exState)
   \<and> visits (Branches exState) [key 1 1, key 2 2, key 3 1]
   \<and> visits (MergeablePullRequests exState) [4, 7, 1]
   \<and> visits exTree [key 1 1, key 2 2]
   \<and> NextMergeablePullRequest exState [key 1 1, key 2 2, key 3 1] [4, 7, 1] = 4
   \<and> 4 = (if schedulable exState = {} then 0 else Min (schedulable exState))
   \<and> (\<exists>h tips. fmlookup (MergeablePullRequests exState) 4 = Some h
         \<and> distinct tips \<and> set tips = {k \<in> fmdom' exTree. viable exTree k}
         \<and> set tips \<subseteq> fmdom' (Branches exState)
         \<and> CreateBranchesForPullRequest exState exTree 4 [key 1 1, key 2 2]
             = scheduleCalls exState 4 h tips)
   \<and> CreateBranchesForPullRequest exState exTree 4 [key 1 1, key 2 2]
       = [CreateBranch (key 4 1) ''main'', MergeBranch (key 4 1) ''pr-4'',
          CreateBranch (key 4 2) ''a'', MergeBranch (key 4 2) ''pr-4'']"
  using scheduler_cycle [OF exState_mergeable(3) exState_visits(2) exState_mergeable(1)
      exTree_def exTree_visits(1) exState_next [symmetric]]
    exState_mergeable(1,3) exState_visits(2) exTree_visits(1) exState_next exState_create
  by simp

text \<open>
  C10.  When the number is not a key of \<^verbatim>\<open>MergeablePullRequests\<close>,
  CreateBranchesForPullRequest returns without a call to the client.
\<close>

theorem CreateBranchesForPullRequest_not_mergeable:
  assumes "number \<notin> fmdom' (MergeablePullRequests os)"
  shows "CreateBranchesForPullRequest os t number ks = []"
  using assms by (simp add: CreateBranchesForPullRequest_def fmdom'_notD)

theorem CreateBranchesForPullRequest_not_mergeable_witness:
  "5 \<notin> fmdom' (MergeablePullRequests exState)
   \<and> CreateBranchesForPullRequest exState exTree 5 [key 1 1, key 2 2] = []"
proof -
  have h: "5 \<notin> fmdom' (MergeablePullRequests exState)"
    by (simp add: exState_def fmlookup_dom'_iff fmlookup_of_list)
  show ?thesis
    using h CreateBranchesForPullRequest_not_mergeable [OF h] by simp
qed

section \<open>Comments and cancelled pull requests\<close>

lemma applyIntents_append:
  "applyIntents (a @ b) old = applyIntents b (applyIntents a old)"
  by (simp add: applyIntents_def)

lemma applyIntents_Nil: "applyIntents [] old = old"
  by (simp add: applyIntents_def)

lemma seed_lookup:
  "fmlookup (fold (\<lambda>bk numbers. fmupd (PullRequestNumber bk) False numbers) ks m) n
     = (if n \<in> PullRequestNumber ` set ks then Some False else fmlookup m n)"
  by (induction ks arbitrary: m) auto

lemma commentLine_lookup:
  "fmlookup (commentLine number line numbers) n
     = (if number = n then applyIntents (lineIntents line) (fmlookup numbers n)
        else fmlookup numbers n)"
  by (simp add: commentLine_def lineIntents_def applyIntents_def Let_def)

lemma commentLines_lookup:
  "fmlookup (fold (commentLine number) lines numbers) n
     = (if number = n
        then applyIntents (concat (map lineIntents lines)) (fmlookup numbers n)
        else fmlookup numbers n)"
proof (induction lines arbitrary: numbers)
  case Nil
  show ?case by (simp add: applyIntents_Nil)
next
  case (Cons l ls)
  show ?case
    by (simp add: Cons.IH commentLine_lookup applyIntents_append)
qed

lemma onComment_lookup:
  "fmlookup (onComment c numbers) n = applyIntents (commentIntents n c) (fmlookup numbers n)"
  by (cases c) (simp add: onComment_def commentIntents_def commentLines_lookup applyIntents_Nil)

lemma comments_lookup:
  "fmlookup (fold onComment comments numbers) n
     = applyIntents (directives comments n) (fmlookup numbers n)"
proof (induction comments arbitrary: numbers)
  case Nil
  show ?case by (simp add: directives_def applyIntents_Nil)
next
  case (Cons c cs)
  have "directives (c # cs) n = commentIntents n c @ directives cs n"
    by (simp add: directives_def)
  then show ?case
    by (simp add: Cons.IH onComment_lookup applyIntents_append)
qed

lemma decorateNumbers_lookup:
  assumes "visits (Branches os) ks"
  shows "fmlookup (decorateNumbers os comments ks) n
           = map_option (\<lambda>i. i = Cancel) (intent os comments n)"
proof -
  have "set ks = fmdom' (Branches os)" using assms by (simp add: visits_def)
  then show ?thesis
    by (simp add: decorateNumbers_def comments_lookup seed_lookup applyIntents_def intent_def)
qed

lemma decorateStep_fields:
  "Base (decorateStep numbers getHead k st) = Base st"
  "Branches (decorateStep numbers getHead k st) = Branches st"
  "CancelledPullRequests (decorateStep numbers getHead k st)
     = CancelledPullRequests st \<union> (if fmlookup numbers k = Some True then {k} else {})"
  "fmlookup (MergeablePullRequests (decorateStep numbers getHead k st)) n
     = (if n = k \<and> fmlookup numbers k = Some False \<and> getHead k \<noteq> None
        then getHead k else fmlookup (MergeablePullRequests st) n)"
  by (auto simp: decorateStep_def split: option.splits)

lemma decorate_fold_same:
  "Base (fold (decorateStep numbers getHead) ns st) = Base st"
  "Branches (fold (decorateStep numbers getHead) ns st) = Branches st"
  by (induction ns arbitrary: st) (simp_all add: decorateStep_fields)

lemma decorate_fold_cancelled:
  "CancelledPullRequests (fold (decorateStep numbers getHead) ns st)
     = CancelledPullRequests st \<union> {n \<in> set ns. fmlookup numbers n = Some True}"
proof (induction ns arbitrary: st)
  case Nil
  show ?case by simp
next
  case (Cons k ks)
  show ?case
    by (simp add: Cons.IH decorateStep_fields(3)) auto
qed

lemma decorate_fold_mergeable:
  "fmlookup (MergeablePullRequests (fold (decorateStep numbers getHead) ns st)) n
     = (if n \<in> set ns \<and> fmlookup numbers n = Some False \<and> getHead n \<noteq> None
        then getHead n else fmlookup (MergeablePullRequests st) n)"
proof (induction ns arbitrary: st n)
  case Nil
  show ?case by simp
next
  case (Cons k ks)
  show ?case
    by (auto simp: Cons.IH decorateStep_fields(4))
qed

lemmas re_simps =
  borsCancelRe_def borsMergeRe_def borsCommand_def HasPrefix_def isSpace_def spaceToEnd_def
  anyThenSpaceToEnd_def

lemma decState_visits: "visits (Branches decState) [key 1 1, key 2 2]"
  by (auto simp: visits_def decState_def fmlookup_dom'_iff fmlookup_of_list key_def
      split: if_splits)

lemma decState_numbers:
  "fmlookup (decorateNumbers decState decComments [key 1 1, key 2 2]) n
     = (if n = 1 then Some False else if n = 2 then Some True else if n = 5 then Some False
        else None)"
  by (simp add: decorateNumbers_def onComment_def commentLine_def decComments_def key_def
      re_simps)

lemma decState_numbers_visits:
  "visits (decorateNumbers decState decComments [key 1 1, key 2 2]) [1, 2, 5]"
  by (auto simp: visits_def fmlookup_dom'_iff decState_numbers split: if_splits)

lemma is_cancel_cases:
  "map_option (\<lambda>i. i = Cancel) x = Some False \<Longrightarrow> x = Some Merge"
  "map_option (\<lambda>i. i = Cancel) x = Some True \<Longrightarrow> x = Some Cancel"
  "map_option (\<lambda>i. i = Cancel) x = None \<Longrightarrow> x = None"
proof -
  show "map_option (\<lambda>i. i = Cancel) x = Some False \<Longrightarrow> x = Some Merge"
    by (cases x) (auto intro: Intent.exhaust)
  show "map_option (\<lambda>i. i = Cancel) x = Some True \<Longrightarrow> x = Some Cancel"
    by (cases x) auto
  show "map_option (\<lambda>i. i = Cancel) x = None \<Longrightarrow> x = None"
    by (cases x) auto
qed

lemma decState_intents:
  "intent decState decComments 1 = Some Merge"
  "intent decState decComments 2 = Some Cancel"
  "intent decState decComments 5 = Some Merge"
  "intent decState decComments 6 = None"
proof -
  have l: "map_option (\<lambda>i. i = Cancel) (intent decState decComments n)
      = (if n = 1 then Some False else if n = 2 then Some True else if n = 5 then Some False
         else None)" for n
    using decorateNumbers_lookup [OF decState_visits, of decComments n]
    by (simp add: decState_numbers)
  show "intent decState decComments 1 = Some Merge"
    using l [of 1] by (simp add: is_cancel_cases)
  show "intent decState decComments 2 = Some Cancel"
    using l [of 2] by (simp add: is_cancel_cases)
  show "intent decState decComments 5 = Some Merge"
    using l [of 5] by (simp add: is_cancel_cases)
  show "intent decState decComments 6 = None"
    using l [of 6] by (simp add: is_cancel_cases)
qed

text \<open>
  C4.  Let \<open>ks\<close> be the order of the visit of the branches and \<open>ns\<close> that of the map
  \<^verbatim>\<open>numbers\<close>.  ToDecoratedWithPullRequests leaves the base and the branches as they
  are, adds to \<^verbatim>\<open>CancelledPullRequests\<close> the numbers whose intent is cancel, and sets
  in \<^verbatim>\<open>MergeablePullRequests\<close> the numbers whose intent is merge and for which the
  client reports a head, to that head; no other entry changes.  The intent of a number
  is the last directive among the lines of the comments on it, read in the order of
  their delivery, and merge when there is none and the number owns a candidate branch.
\<close>

theorem ToDecoratedWithPullRequests_intent:
  assumes "visits (Branches os) ks" and "visits (decorateNumbers os comments ks) ns"
    and "ds = ToDecoratedWithPullRequests os comments getHead ks ns"
  shows "Base ds = Base os \<and> Branches ds = Branches os
    \<and> CancelledPullRequests ds
        = CancelledPullRequests os \<union> {n. intent os comments n = Some Cancel}
    \<and> (\<forall>n. fmlookup (MergeablePullRequests ds) n
          = (if intent os comments n = Some Merge \<and> getHead n \<noteq> None then getHead n
             else fmlookup (MergeablePullRequests os) n))"
proof -
  let ?numbers = "decorateNumbers os comments ks"
  have num: "fmlookup ?numbers n = map_option (\<lambda>i. i = Cancel) (intent os comments n)" for n
    using assms(1) by (rule decorateNumbers_lookup)
  have ns: "set ns = fmdom' ?numbers" using assms(2) by (simp add: visits_def)
  have c: "n \<in> set ns \<and> fmlookup ?numbers n = Some True \<longleftrightarrow> intent os comments n = Some Cancel"
    for n
    unfolding ns fmlookup_dom'_iff num by (cases "intent os comments n") auto
  have m: "n \<in> set ns \<and> fmlookup ?numbers n = Some False \<longleftrightarrow> intent os comments n = Some Merge"
    for n
    unfolding ns fmlookup_dom'_iff num
    by (cases "intent os comments n"; cases "the (intent os comments n)") auto
  have d: "ds = fold (decorateStep ?numbers getHead) ns os"
    by (simp add: assms(3) ToDecoratedWithPullRequests_def deepCopy_id)
  have "{n \<in> set ns. fmlookup ?numbers n = Some True} = {n. intent os comments n = Some Cancel}"
    using c by blast
  moreover have "(n \<in> set ns \<and> fmlookup ?numbers n = Some False \<and> getHead n \<noteq> None)
      \<longleftrightarrow> (intent os comments n = Some Merge \<and> getHead n \<noteq> None)" for n
    using m [of n] by blast
  ultimately show ?thesis
    unfolding d by (simp add: decorate_fold_same decorate_fold_cancelled decorate_fold_mergeable)
qed

theorem ToDecoratedWithPullRequests_intent_witness:
  "visits (Branches decState) [key 1 1, key 2 2]
   \<and> visits (decorateNumbers decState decComments [key 1 1, key 2 2]) [1, 2, 5]
   \<and> intent decState decComments 1 = Some Merge
   \<and> intent decState decComments 2 = Some Cancel
   \<and> intent decState decComments 5 = Some Merge
   \<and> 2 \<in> CancelledPullRequests
            (ToDecoratedWithPullRequests decState decComments decHeads [key 1 1, key 2 2] [1, 2, 5])
   \<and> fmlookup (MergeablePullRequests
         (ToDecoratedWithPullRequests decState decComments decHeads [key 1 1, key 2 2] [1, 2, 5])) 1
       = Some ''pr-1''
   \<and> fmlookup (MergeablePullRequests
         (ToDecoratedWithPullRequests decState decComments decHeads [key 1 1, key 2 2] [1, 2, 5])) 2
       = None
   \<and> fmlookup (MergeablePullRequests
         (ToDecoratedWithPullRequests decState decComments decHeads [key 1 1, key 2 2] [1, 2, 5])) 5
       = Some ''pr-5''"
proof -
  have e: "fmlookup (MergeablePullRequests decState) n = None" for n
    by (simp add: decState_def)
  show ?thesis
    using ToDecoratedWithPullRequests_intent [OF decState_visits decState_numbers_visits refl,
        of decHeads]
      decState_visits decState_numbers_visits
    by (simp add: decState_intents decHeads_def e)
qed

lemma fetch_fold:
  "MergeablePullRequests (fold (\<lambda>bk ns. ns\<lparr>Branches := fmupd bk (g bk) (Branches ns)\<rparr>) listed st)
     = MergeablePullRequests st
   \<and> CancelledPullRequests (fold (\<lambda>bk ns. ns\<lparr>Branches := fmupd bk (g bk) (Branches ns)\<rparr>) listed st)
     = CancelledPullRequests st"
  by (induction listed arbitrary: st) auto

lemma stageInv_reached: "reached stage s \<Longrightarrow> stageInv stage s"
proof (induction rule: reached.induct)
  case (fetch baseHead listed getBranch)
  show ?case
    by (simp add: stageInv_def FetchMergeCandidateBranchState_def fetch_fold fresh_def)
next
  case (orphans s ord ks)
  then show ?case
    by (simp add: stageInv_def ToPrunedOrphanedBranches_def prune_fold deepCopy_id)
next
  case (decorate s comments getHead ks ns)
  let ?numbers = "decorateNumbers s comments ks"
  let ?ds = "fold (decorateStep ?numbers getHead) ns s"
  from decorate.IH have e: "MergeablePullRequests s = fmempty" "CancelledPullRequests s = {}"
    by (simp_all add: stageInv_def)
  have c: "CancelledPullRequests ?ds = {n \<in> set ns. fmlookup ?numbers n = Some True}"
    using e by (simp add: decorate_fold_cancelled)
  have m: "fmlookup (MergeablePullRequests ?ds) n \<noteq> None \<Longrightarrow> fmlookup ?numbers n = Some False"
    for n
    using e by (auto simp: decorate_fold_mergeable split: if_splits)
  have "fmdom' (MergeablePullRequests ?ds) \<inter> CancelledPullRequests ?ds = {}"
    unfolding c using m by (auto simp: fmlookup_dom'_iff)
  then show ?case
    by (simp add: stageInv_def ToDecoratedWithPullRequests_def deepCopy_id)
next
  case (cancelled s ks)
  show ?case
    by (simp add: stageInv_def ToPrunedCancelledPullRequests_def split: prod.splits)
qed

text \<open>
  C7.  In every state that the control loop reaches, after every transition, no
  pull-request number is both a key of \<^verbatim>\<open>MergeablePullRequests\<close> and a member of
  \<^verbatim>\<open>CancelledPullRequests\<close>.
\<close>

theorem reached_disjoint:
  assumes "reached stage s"
  shows "fmdom' (MergeablePullRequests s) \<inter> CancelledPullRequests s = {}"
  using stageInv_reached [OF assms] by (cases stage) (simp_all add: stageInv_def)

theorem reached_disjoint_witness:
  "reached Decorated loopDecorated
   \<and> fmdom' (MergeablePullRequests loopDecorated) \<inter> CancelledPullRequests loopDecorated = {}"
proof -
  have "reached Fetched loopFetched"
    unfolding loopFetched_def by (rule reached.fetch)
  then have "reached OrphansPruned loopPruned"
    unfolding loopPruned_def by (rule reached.orphans)
  then have r: "reached Decorated loopDecorated"
    unfolding loopDecorated_def by (rule reached.decorate)
  show ?thesis
    using r reached_disjoint [OF r] by simp
qed

end
